theory Spec2Isabelle
  imports Main
begin

section \<open>Data model of the dispatchers package\<close>

text \<open>
  A Go \<open>error\<close> value. The errors built by this package come from \<open>errors.New\<close>;
  an error returned by a writer or a closer is any such value.
\<close>

datatype error = errorString string

text \<open>
  Modelled from the spec: \<open>*format.Formatter\<close> is declared outside the given sources.
  The dispatcher only stores it, hands it to \<open>NewFormattedWriter\<close> and asks for its
  \<open>String()\<close>, so the model keeps the description it prints.
\<close>

datatype Formatter = Formatter (Formatter_String: string)

text \<open>
  An \<open>io.Writer\<close> value (the spec's sink). Its dynamic type decides the two type
  assertions of the source, \<open>.(FlusherInterface)\<close> and \<open>.(io.Closer)\<close>.
\<close>

datatype io_Writer =
  io_Writer (name: string) (is_Flusher: bool) (is_Closer: bool)

text \<open>
  Modelled from the spec: \<open>FormattedWriter\<close> is declared outside the given sources.
  It binds one sink to one formatter; \<open>Writer()\<close> exposes the sink.
\<close>

datatype FormattedWriter =
  FormattedWriter (Writer: io_Writer) (fw_formatter: Formatter)

text \<open>
  The struct \<open>dispatcher\<close>. The children are \<open>DispatcherInterface\<close> values; they are
  taken to be dispatchers of this struct, and the structure is a tree. The methods
  \<open>Writers()\<close> and \<open>Dispatchers()\<close> return the two slices.
\<close>

datatype dispatcher =
  dispatcher (formatter: Formatter) (writers: "FormattedWriter list")
    (dispatchers: "dispatcher list")

definition Writers :: "dispatcher \<Rightarrow> FormattedWriter list" where
  "Writers disp = writers disp"

definition Dispatchers :: "dispatcher \<Rightarrow> dispatcher list" where
  "Dispatchers disp = dispatchers disp"

section \<open>Calls that leave the package\<close>

text \<open>
  Every call on an external object is recorded, in the order it happens, with the value it
  returned: \<open>writer.Write(message, level, context)\<close>, \<open>errorFunc(err)\<close>,
  \<open>flusher.Flush()\<close> (which returns nothing) and \<open>closer.Close()\<close>. The types
  \<open>LogLevel\<close> and \<open>LogContext\<close> are declared outside the given sources and only passed
  through, so they are the type parameters \<open>'l\<close> and \<open>'c\<close>.
\<close>

datatype ('l, 'c) event =
  EvWrite FormattedWriter string 'l 'c "error option"
  | EvErrorFunc error
  | EvFlush io_Writer
  | EvClose io_Writer "error option"

text \<open>
  What an external call returns is not decided by this package. It is given by the
  environment and may depend on everything that happened before the call.
\<close>

record ('l, 'c) env =
  Write_returns ::
    "('l, 'c) event list \<Rightarrow> FormattedWriter \<Rightarrow> string \<Rightarrow> 'l \<Rightarrow> 'c \<Rightarrow> error option"
  Close_returns :: "('l, 'c) event list \<Rightarrow> io_Writer \<Rightarrow> error option"

section \<open>Dispatch\<close>

text \<open>The first loop of \<open>Dispatch\<close>, over \<open>disp.writers\<close>.\<close>

fun Dispatch_writers ::
  "('l, 'c) env \<Rightarrow> string \<Rightarrow> 'l \<Rightarrow> 'c \<Rightarrow> FormattedWriter list \<Rightarrow>
     ('l, 'c) event list \<Rightarrow> ('l, 'c) event list" where
  "Dispatch_writers E message level context [] tr = tr"
| "Dispatch_writers E message level context (writer # rest) tr =
     (let err = Write_returns E tr writer message level context;
          tr1 = tr @ [EvWrite writer message level context err];
          tr2 = (case err of None \<Rightarrow> tr1 | Some e \<Rightarrow> tr1 @ [EvErrorFunc e])
      in Dispatch_writers E message level context rest tr2)"

text \<open>\<open>Dispatch\<close>, and its second loop, over \<open>disp.dispatchers\<close>.\<close>

fun Dispatch ::
  "('l, 'c) env \<Rightarrow> string \<Rightarrow> 'l \<Rightarrow> 'c \<Rightarrow> dispatcher \<Rightarrow>
     ('l, 'c) event list \<Rightarrow> ('l, 'c) event list"
and Dispatch_children ::
  "('l, 'c) env \<Rightarrow> string \<Rightarrow> 'l \<Rightarrow> 'c \<Rightarrow> dispatcher list \<Rightarrow>
     ('l, 'c) event list \<Rightarrow> ('l, 'c) event list" where
  "Dispatch E message level context (dispatcher f ws ds) tr =
     Dispatch_children E message level context ds
       (Dispatch_writers E message level context ws tr)"
| "Dispatch_children E message level context [] tr = tr"
| "Dispatch_children E message level context (dispInterface # rest) tr =
     Dispatch_children E message level context rest
       (Dispatch E message level context dispInterface tr)"

section \<open>Flush\<close>

text \<open>The second loop of \<open>Flush\<close>, over \<open>disp.Writers()\<close>.\<close>

fun Flush_writers ::
  "FormattedWriter list \<Rightarrow> ('l, 'c) event list \<Rightarrow> ('l, 'c) event list" where
  "Flush_writers [] tr = tr"
| "Flush_writers (formatWriter # rest) tr =
     Flush_writers rest
       (if is_Flusher (Writer formatWriter) then tr @ [EvFlush (Writer formatWriter)]
        else tr)"

text \<open>\<open>Flush\<close>, and its first loop, over \<open>disp.Dispatchers()\<close>.\<close>

fun Flush :: "dispatcher \<Rightarrow> ('l, 'c) event list \<Rightarrow> ('l, 'c) event list"
and Flush_children :: "dispatcher list \<Rightarrow> ('l, 'c) event list \<Rightarrow> ('l, 'c) event list" where
  "Flush (dispatcher f ws ds) tr = Flush_writers ws (Flush_children ds tr)"
| "Flush_children [] tr = tr"
| "Flush_children (disp # rest) tr = Flush_children rest (Flush disp tr)"

section \<open>Close\<close>

text \<open>The second loop of \<open>Close\<close>, over \<open>disp.Writers()\<close>.\<close>

fun Close_writers ::
  "('l, 'c) env \<Rightarrow> FormattedWriter list \<Rightarrow> ('l, 'c) event list \<Rightarrow>
     error option \<times> ('l, 'c) event list" where
  "Close_writers E [] tr = (None, tr)"
| "Close_writers E (formatWriter # rest) tr =
     (let tr1 = (if is_Flusher (Writer formatWriter)
                 then tr @ [EvFlush (Writer formatWriter)] else tr)
      in if is_Closer (Writer formatWriter)
         then (let err = Close_returns E tr1 (Writer formatWriter);
                   tr2 = tr1 @ [EvClose (Writer formatWriter) err]
               in case err of
                    Some e \<Rightarrow> (Some e, tr2)
                  | None \<Rightarrow> Close_writers E rest tr2)
         else Close_writers E rest tr1)"

text \<open>\<open>Close\<close>, and its first loop, over \<open>disp.Dispatchers()\<close>.\<close>

fun Close ::
  "('l, 'c) env \<Rightarrow> dispatcher \<Rightarrow> ('l, 'c) event list \<Rightarrow>
     error option \<times> ('l, 'c) event list"
and Close_children ::
  "('l, 'c) env \<Rightarrow> dispatcher list \<Rightarrow> ('l, 'c) event list \<Rightarrow>
     error option \<times> ('l, 'c) event list" where
  "Close E (dispatcher f ws ds) tr =
     (case Close_children E ds tr of
        (Some e, tr1) \<Rightarrow> (Some e, tr1)
      | (None, tr1) \<Rightarrow> Close_writers E ws tr1)"
| "Close_children E [] tr = (None, tr)"
| "Close_children E (disp # rest) tr =
     (case Close E disp (Flush disp tr) of
        (Some e, tr2) \<Rightarrow> (Some e, tr2)
      | (None, tr2) \<Rightarrow> Close_children E rest tr2)"

section \<open>createDispatcher\<close>

text \<open>
  A receiver is an \<open>interface{}\<close> value. Its dynamic type is either \<open>*FormattedWriter\<close>
  or some other type, which may or may not satisfy \<open>io.Writer\<close> and
  \<open>DispatcherInterface\<close>; where it does, the constructor holds the value seen through that
  interface. (\<open>FormattedWriter.Write\<close> takes a message, a level and a context, so a
  \<open>*FormattedWriter\<close> is no \<open>io.Writer\<close>.)
\<close>

datatype receiver =
  Receiver_FormattedWriter FormattedWriter
  | Receiver_other "io_Writer option" "dispatcher option"

text \<open>
  The loop over \<open>receivers\<close>. \<open>NewFormattedWriter\<close> is declared outside the given
  sources and is the parameter \<open>N\<close>.
\<close>

fun createDispatcher_loop ::
  "(io_Writer \<Rightarrow> Formatter \<Rightarrow> error + FormattedWriter) \<Rightarrow> dispatcher \<Rightarrow> receiver list \<Rightarrow>
     error + dispatcher" where
  "createDispatcher_loop N disp [] = Inr disp"
| "createDispatcher_loop N disp (Receiver_FormattedWriter writer # rest) =
     createDispatcher_loop N
       (dispatcher (formatter disp) (writers disp @ [writer]) (dispatchers disp)) rest"
| "createDispatcher_loop N disp (Receiver_other (Some ioWriter) di # rest) =
     (case N ioWriter (formatter disp) of
        Inl err \<Rightarrow> Inl err
      | Inr writer \<Rightarrow>
          createDispatcher_loop N
            (dispatcher (formatter disp) (writers disp @ [writer]) (dispatchers disp)) rest)"
| "createDispatcher_loop N disp (Receiver_other None (Some dispInterface) # rest) =
     createDispatcher_loop N
       (dispatcher (formatter disp) (writers disp) (dispatchers disp @ [dispInterface])) rest"
| "createDispatcher_loop N disp (Receiver_other None None # rest) =
     Inl (errorString ''Method can receive either io.Writer or DispatcherInterface'')"

text \<open>\<open>None\<close> is the nil formatter, respectively the nil slice of receivers.\<close>

definition createDispatcher ::
  "(io_Writer \<Rightarrow> Formatter \<Rightarrow> error + FormattedWriter) \<Rightarrow> Formatter option \<Rightarrow>
     receiver list option \<Rightarrow> error + dispatcher" where
  "createDispatcher N formatter_arg receivers =
     (case formatter_arg of
        None \<Rightarrow> Inl (errorString ''Formatter can not be nil'')
      | Some f \<Rightarrow>
          (case receivers of
             None \<Rightarrow> Inl (errorString ''Receivers can not be nil or empty'')
           | Some rs \<Rightarrow>
               if length rs = 0 then Inl (errorString ''Receivers can not be nil or empty'')
               else createDispatcher_loop N (dispatcher f [] []) rs))"

section \<open>String\<close>

text \<open>
  The loop over \<open>disp.writers\<close>. \<open>fmt.Sprintf\<close> prints a writer with \<open>%s\<close>; what that
  gives for a \<open>*FormattedWriter\<close> is decided outside the given sources and is the
  parameter \<open>W\<close>.
\<close>

fun String_writers :: "(FormattedWriter \<Rightarrow> string) \<Rightarrow> FormattedWriter list \<Rightarrow> string \<Rightarrow> string" where
  "String_writers W [] str = str"
| "String_writers W (writer # rest) str =
     String_writers W rest (str @ ''        ->'' @ W writer @ ''\<newline>'')"

text \<open>
  \<open>String\<close>, and its loop over \<open>disp.dispatchers\<close>; \<open>%s\<close> prints a child by its own
  \<open>String()\<close>.
\<close>

fun String :: "(FormattedWriter \<Rightarrow> string) \<Rightarrow> dispatcher \<Rightarrow> string"
and String_children :: "(FormattedWriter \<Rightarrow> string) \<Rightarrow> dispatcher list \<Rightarrow> string \<Rightarrow> string" where
  "String W (dispatcher f ws ds) =
     (let str = ''Formatter: '' @ Formatter_String f @ ''\<newline>'';
          str = str @ ''    ->Dispatchers:'';
          str = (if length ds = 0 then str @ ''none\<newline>''
                 else String_children W ds (str @ ''\<newline>''));
          str = str @ ''    ->Writers:'';
          str = (if length ws = 0 then str @ ''none\<newline>''
                 else String_writers W ws (str @ ''\<newline>''))
      in str)"
| "String_children W [] str = str"
| "String_children W (disp # rest) str =
     String_children W rest (str @ ''        ->'' @ String W disp)"

section \<open>Reading a trace\<close>

text \<open>
  The order in which the spec says a tree is served: the node's own writers, in
  registration order, then each child's subtree, in registration order, depth-first.
\<close>

fun dispatch_order :: "dispatcher \<Rightarrow> FormattedWriter list" where
  "dispatch_order (dispatcher f ws ds) = ws @ concat (map dispatch_order ds)"

text \<open>The writers whose \<open>Write\<close> was called, in the order of the calls.\<close>

fun written :: "('l, 'c) event list \<Rightarrow> FormattedWriter list" where
  "written [] = []"
| "written (EvWrite w m l c r # evs) = w # written evs"
| "written (ev # evs) = written evs"

text \<open>The errors the error callback was invoked with, in the order of the calls.\<close>

fun callbacks :: "('l, 'c) event list \<Rightarrow> error list" where
  "callbacks [] = []"
| "callbacks (EvErrorFunc e # evs) = e # callbacks evs"
| "callbacks (ev # evs) = callbacks evs"

text \<open>The messages a writer took without an error, in the order of the calls.\<close>

fun delivered :: "FormattedWriter \<Rightarrow> ('l, 'c) event list \<Rightarrow> (string \<times> 'l \<times> 'c) list" where
  "delivered w [] = []"
| "delivered w (EvWrite w' m l c r # evs) =
     (if w' = w \<and> r = None then (m, l, c) # delivered w evs else delivered w evs)"
| "delivered w (ev # evs) = delivered w evs"

text \<open>
  What one writer contributes to a dispatch: the call of \<open>Write\<close> with its return value,
  followed by the call of the error callback when that value is an error.
\<close>

definition delivery ::
  "string \<Rightarrow> 'l \<Rightarrow> 'c \<Rightarrow> FormattedWriter \<Rightarrow> error option \<Rightarrow> ('l, 'c) event list" where
  "delivery m l c w r =
     EvWrite w m l c r # (case r of None \<Rightarrow> [] | Some e \<Rightarrow> [EvErrorFunc e])"

text \<open>A caller dispatching one message after the other into the same tree.\<close>

fun Dispatch_all ::
  "('l, 'c) env \<Rightarrow> dispatcher \<Rightarrow> (string \<times> 'l \<times> 'c) list \<Rightarrow> ('l, 'c) event list \<Rightarrow>
     ('l, 'c) event list" where
  "Dispatch_all E disp [] tr = tr"
| "Dispatch_all E disp ((message, level, context) # rest) tr =
     Dispatch_all E disp rest (Dispatch E message level context disp tr)"

section \<open>The orders of flushing and closing\<close>

text \<open>
  The order in which the spec says a tree is flushed: each child's subtree, in
  registration order, then the sinks of the node's own writers that have the flush
  capability, in registration order.
\<close>

fun flush_order :: "dispatcher \<Rightarrow> ('l, 'c) event list" where
  "flush_order (dispatcher f ws ds) =
     concat (map flush_order ds) @ map EvFlush (filter is_Flusher (map Writer ws))"

text \<open>
  Every error value a trace holds: returned by a \<open>Write\<close>, passed to the error callback
  or returned by a \<open>Close\<close>.
\<close>

fun errors_of :: "('l, 'c) event list \<Rightarrow> error list" where
  "errors_of [] = []"
| "errors_of (EvWrite w m l c (Some e) # evs) = e # errors_of evs"
| "errors_of (EvErrorFunc e # evs) = e # errors_of evs"
| "errors_of (EvClose s (Some e) # evs) = e # errors_of evs"
| "errors_of (ev # evs) = errors_of evs"

text \<open>
  What the spec says the teardown of one writer is: its sink is flushed if it has the
  flush capability, then closed if it has the close capability.
\<close>

definition writer_teardown :: "FormattedWriter \<Rightarrow> ('l, 'c) event list" where
  "writer_teardown w =
     (if is_Flusher (Writer w) then [EvFlush (Writer w)] else []) @
     (if is_Closer (Writer w) then [EvClose (Writer w) None] else [])"

text \<open>
  The order in which the spec says a tree is torn down when no close fails: each child,
  in registration order, is flushed and then closed in the same way; then the node's own
  writers are torn down, in registration order.
\<close>

fun close_order :: "dispatcher \<Rightarrow> ('l, 'c) event list" where
  "close_order (dispatcher f ws ds) =
     concat (map (\<lambda>d. flush_order d @ close_order d) ds) @ concat (map writer_teardown ws)"

text \<open>
  A run from the trace \<open>tr\<close> to the trace \<open>tr'\<close> with the result \<open>r\<close> follows a plan when
  it made all the calls of the plan and returned no error, or made the calls of the plan
  up to a close, which returned the error \<open>e\<close>, and returned \<open>e\<close> at once.
\<close>

definition outcome ::
  "('l, 'c) event list \<Rightarrow> ('l, 'c) event list \<Rightarrow> error option \<Rightarrow> ('l, 'c) event list \<Rightarrow> bool"
  where
  "outcome plan tr r tr' =
     (case r of
        None \<Rightarrow> tr' = tr @ plan
      | Some e \<Rightarrow>
          (\<exists>pre s post. plan = pre @ EvClose s None # post \<and>
             tr' = tr @ pre @ [EvClose s (Some e)]))"

text \<open>
  In a list of calls, every close of a sink that has the flush capability comes right
  after the flush of that sink.
\<close>

definition flush_precedes_close :: "('l, 'c) event list \<Rightarrow> bool" where
  "flush_precedes_close evs =
     (\<forall>pre s r post. evs = pre @ EvClose s r # post \<and> is_Flusher s \<longrightarrow>
        pre \<noteq> [] \<and> last pre = EvFlush s)"

text \<open>
  In a list of calls, every close of the sink \<open>s\<close> comes after at least \<open>k\<close> flushes of
  \<open>s\<close>.
\<close>

definition closes_after_flushes :: "nat \<Rightarrow> io_Writer \<Rightarrow> ('l, 'c) event list \<Rightarrow> bool" where
  "closes_after_flushes k s evs =
     (\<forall>pre r post. evs = pre @ EvClose s r # post \<longrightarrow> k \<le> count_list pre (EvFlush s))"

section \<open>The classification of receivers\<close>

text \<open>
  The classification of the spec, in its priority order: a receiver is writer-like when
  it is a \<open>FormattedWriter\<close> or, failing that, a raw sink; it is dispatcher-like when it
  is neither and is a dispatcher.
\<close>

fun writer_like :: "receiver \<Rightarrow> bool" where
  "writer_like (Receiver_FormattedWriter w) = True"
| "writer_like (Receiver_other (Some s) di) = True"
| "writer_like (Receiver_other None di) = False"

fun dispatcher_like :: "receiver \<Rightarrow> bool" where
  "dispatcher_like (Receiver_FormattedWriter w) = False"
| "dispatcher_like (Receiver_other (Some s) di) = False"
| "dispatcher_like (Receiver_other None (Some d)) = True"
| "dispatcher_like (Receiver_other None None) = False"

text \<open>
  The writer the spec stores for a receiver: a \<open>FormattedWriter\<close> as it is, a raw sink
  wrapped with the shared formatter.
\<close>

fun stored_writer ::
  "(io_Writer \<Rightarrow> Formatter \<Rightarrow> error + FormattedWriter) \<Rightarrow> Formatter \<Rightarrow> receiver \<Rightarrow>
     FormattedWriter option" where
  "stored_writer N f (Receiver_FormattedWriter w) = Some w"
| "stored_writer N f (Receiver_other (Some s) di) =
     (case N s f of Inl e \<Rightarrow> None | Inr w \<Rightarrow> Some w)"
| "stored_writer N f (Receiver_other None di) = None"

text \<open>The child the spec stores for a receiver.\<close>

fun stored_child :: "receiver \<Rightarrow> dispatcher option" where
  "stored_child (Receiver_FormattedWriter w) = None"
| "stored_child (Receiver_other (Some s) di) = None"
| "stored_child (Receiver_other None di) = di"

text \<open>
  The error the spec lets a receiver cause: the error of wrapping a raw sink, or
  the error for a receiver of no supported type.
\<close>

fun rejection ::
  "(io_Writer \<Rightarrow> Formatter \<Rightarrow> error + FormattedWriter) \<Rightarrow> Formatter \<Rightarrow> receiver \<Rightarrow>
     error option" where
  "rejection N f (Receiver_FormattedWriter w) = None"
| "rejection N f (Receiver_other (Some s) di) =
     (case N s f of Inl e \<Rightarrow> Some e | Inr w \<Rightarrow> None)"
| "rejection N f (Receiver_other None (Some d)) = None"
| "rejection N f (Receiver_other None None) =
     Some (errorString ''Method can receive either io.Writer or DispatcherInterface'')"

section \<open>Reading a rendering\<close>

text \<open>The lines of a text, each ended by a newline.\<close>

fun lines_of :: "string \<Rightarrow> string list" where
  "lines_of [] = []"
| "lines_of (c # cs) =
     (if c = CHR ''\<newline>'' then [] # lines_of cs
      else (case lines_of cs of [] \<Rightarrow> [[c]] | l # ls \<Rightarrow> (c # l) # ls))"

text \<open>The indentation of a line: the number of spaces it starts with.\<close>

definition indent :: "string \<Rightarrow> nat" where
  "indent l = length (takeWhile (\<lambda>c. c = CHR '' '') l)"

text \<open>
  A line introduces a dispatcher when, after its indentation and an arrow, it starts
  with the formatter's label.
\<close>

definition introduces_dispatcher :: "string \<Rightarrow> bool" where
  "introduces_dispatcher l =
     (let t = dropWhile (\<lambda>c. c = CHR '' '') l;
          u = (if take 2 t = ''->'' then drop 2 t else t)
      in take 11 u = ''Formatter: '')"

text \<open>The indentations of the lines of a rendering that introduce a dispatcher.\<close>

definition header_indents :: "string \<Rightarrow> nat list" where
  "header_indents str = map indent (filter introduces_dispatcher (lines_of str))"

text \<open>The depth of every node of a tree, the node first, then its children in order.\<close>

fun node_depths :: "nat \<Rightarrow> dispatcher \<Rightarrow> nat list" where
  "node_depths k (dispatcher f ws ds) = k # concat (map (node_depths (Suc k)) ds)"

text \<open>
  What the spec calls a rendering with increasing indentation: of two dispatchers, the
  one that is nested more deeply is introduced on a line that is indented more.
\<close>

definition indentation_increases :: "(FormattedWriter \<Rightarrow> string) \<Rightarrow> dispatcher \<Rightarrow> bool" where
  "indentation_increases W disp =
     (let ps = zip (node_depths 0 disp) (header_indents (String W disp))
      in list_all (\<lambda>(k, i). list_all (\<lambda>(k', i'). k < k' \<longrightarrow> i < i') ps) ps)"

section \<open>Concrete trees and environments\<close>

text \<open>
  Sinks with every combination of the two capabilities, and one whose writes and whose
  close fail.
\<close>

definition sink_A :: io_Writer where "sink_A = io_Writer ''A'' True True"
definition sink_B :: io_Writer where "sink_B = io_Writer ''B'' False True"
definition sink_C :: io_Writer where "sink_C = io_Writer ''C'' True False"
definition sink_D :: io_Writer where "sink_D = io_Writer ''D'' False False"
definition sink_X :: io_Writer where "sink_X = io_Writer ''X'' True True"

definition example_formatter :: Formatter where
  "example_formatter = Formatter ''%Msg''"

definition writer_A :: FormattedWriter where
  "writer_A = FormattedWriter sink_A example_formatter"
definition writer_B :: FormattedWriter where
  "writer_B = FormattedWriter sink_B example_formatter"
definition writer_C :: FormattedWriter where
  "writer_C = FormattedWriter sink_C example_formatter"
definition writer_D :: FormattedWriter where
  "writer_D = FormattedWriter sink_D example_formatter"
definition writer_X :: FormattedWriter where
  "writer_X = FormattedWriter sink_X example_formatter"

definition example_child :: dispatcher where
  "example_child = dispatcher example_formatter [writer_C, writer_D] []"

definition example_tree :: dispatcher where
  "example_tree = dispatcher example_formatter [writer_A, writer_B] [example_child]"

definition failing_child :: dispatcher where
  "failing_child = dispatcher example_formatter [writer_B] []"

definition failing_tree :: dispatcher where
  "failing_tree = dispatcher example_formatter [writer_X] [failing_child]"

text \<open>Every call on \<open>sink_X\<close> that can fail does; every other call succeeds.\<close>

definition example_env :: "(nat, unit) env" where
  "example_env =
     \<lparr>Write_returns = (\<lambda>tr w m l c.
        if Writer w = sink_X then Some (errorString ''disk full'') else None),
      Close_returns = (\<lambda>tr s.
        if s = sink_X then Some (errorString ''already closed'') else None)\<rparr>"

text \<open>A tree whose only child holds the sink whose close fails.\<close>

definition closing_child :: dispatcher where
  "closing_child = dispatcher example_formatter [writer_X] []"

definition closing_tree :: dispatcher where
  "closing_tree = dispatcher example_formatter [writer_A, writer_B] [closing_child]"

text \<open>A tree whose child holds a sink that can be flushed and closed.\<close>

definition nested_child :: dispatcher where
  "nested_child = dispatcher example_formatter [writer_A] []"

definition nested_tree :: dispatcher where
  "nested_tree = dispatcher example_formatter [writer_B] [nested_child]"

text \<open>A wrapping that never fails, for the concrete tree.\<close>

definition example_wrap :: "io_Writer \<Rightarrow> Formatter \<Rightarrow> error + FormattedWriter" where
  "example_wrap s f = Inr (FormattedWriter s f)"

text \<open>A tree three levels deep, and a rendering of writers by the name of their sink.\<close>

definition deep_tree :: dispatcher where
  "deep_tree =
     dispatcher (Formatter ''R'') []
       [dispatcher (Formatter ''C'') [] [dispatcher (Formatter ''G'') [writer_A] []]]"

definition example_W :: "FormattedWriter \<Rightarrow> string" where
  "example_W w = name (Writer w)"

text \<open>
  Sinks that can be closed once: a close of a sink that was closed before returns an
  error, as the second close of a file does.
\<close>

definition closed_once_env :: "(nat, unit) env" where
  "closed_once_env =
     \<lparr>Write_returns = (\<lambda>tr w m l c. None),
      Close_returns = (\<lambda>tr s.
        if EvClose s None \<in> set tr then Some (errorString ''already closed'') else None)\<rparr>"

definition two_files :: dispatcher where
  "two_files = dispatcher example_formatter [writer_A, writer_B] []"

section \<open>The node as state\<close>

text \<open>
  The three methods have a pointer receiver, so a call may change the node it is called
  on, and a call on a child may change the child. The state-passing form of a method
  returns the node as the call leaves it: the fields of the node itself, which the body
  of the method reads and could assign, and the children as the calls made on them leave
  them. In the loop of \<open>Close\<close> over the children, \<open>Close\<close> is called on the child as its
  \<open>Flush\<close> left it.
\<close>

fun Dispatch_node ::
  "('l, 'c) env \<Rightarrow> string \<Rightarrow> 'l \<Rightarrow> 'c \<Rightarrow> dispatcher \<Rightarrow> ('l, 'c) event list \<Rightarrow>
     dispatcher \<times> ('l, 'c) event list"
and Dispatch_nodes ::
  "('l, 'c) env \<Rightarrow> string \<Rightarrow> 'l \<Rightarrow> 'c \<Rightarrow> dispatcher list \<Rightarrow> ('l, 'c) event list \<Rightarrow>
     dispatcher list \<times> ('l, 'c) event list" where
  "Dispatch_node E message level context (dispatcher f ws ds) tr =
     (case Dispatch_nodes E message level context ds
             (Dispatch_writers E message level context ws tr) of
        (ds', tr') \<Rightarrow> (dispatcher f ws ds', tr'))"
| "Dispatch_nodes E message level context [] tr = ([], tr)"
| "Dispatch_nodes E message level context (dispInterface # rest) tr =
     (case Dispatch_node E message level context dispInterface tr of
        (dispInterface', tr1) \<Rightarrow>
          (case Dispatch_nodes E message level context rest tr1 of
             (rest', tr2) \<Rightarrow> (dispInterface' # rest', tr2)))"

fun Flush_node :: "dispatcher \<Rightarrow> ('l, 'c) event list \<Rightarrow> dispatcher \<times> ('l, 'c) event list"
and Flush_nodes ::
  "dispatcher list \<Rightarrow> ('l, 'c) event list \<Rightarrow> dispatcher list \<times> ('l, 'c) event list" where
  "Flush_node (dispatcher f ws ds) tr =
     (case Flush_nodes ds tr of
        (ds', tr1) \<Rightarrow> (dispatcher f ws ds', Flush_writers ws tr1))"
| "Flush_nodes [] tr = ([], tr)"
| "Flush_nodes (disp # rest) tr =
     (case Flush_node disp tr of
        (disp', tr1) \<Rightarrow>
          (case Flush_nodes rest tr1 of (rest', tr2) \<Rightarrow> (disp' # rest', tr2)))"

function Close_node ::
  "('l, 'c) env \<Rightarrow> dispatcher \<Rightarrow> ('l, 'c) event list \<Rightarrow>
     dispatcher \<times> error option \<times> ('l, 'c) event list"
and Close_nodes ::
  "('l, 'c) env \<Rightarrow> dispatcher list \<Rightarrow> ('l, 'c) event list \<Rightarrow>
     dispatcher list \<times> error option \<times> ('l, 'c) event list" where
  "Close_node E (dispatcher f ws ds) tr =
     (case Close_nodes E ds tr of
        (ds', Some e, tr1) \<Rightarrow> (dispatcher f ws ds', Some e, tr1)
      | (ds', None, tr1) \<Rightarrow>
          (case Close_writers E ws tr1 of (r, tr2) \<Rightarrow> (dispatcher f ws ds', r, tr2)))"
| "Close_nodes E [] tr = ([], None, tr)"
| "Close_nodes E (disp # rest) tr =
     (case Flush_node disp tr of
        (disp1, tr1) \<Rightarrow>
          (case Close_node E disp1 tr1 of
             (disp2, Some e, tr2) \<Rightarrow> (disp2 # rest, Some e, tr2)
           | (disp2, None, tr2) \<Rightarrow>
               (case Close_nodes E rest tr2 of
                  (rest', r, tr3) \<Rightarrow> (disp2 # rest', r, tr3))))"
  by pat_completeness auto

section \<open>The node after a call\<close>

lemma Dispatch_node_unchanged:
  "Dispatch_node E m l c d tr = (d, Dispatch E m l c d tr)"
  "Dispatch_nodes E m l c ds tr = (ds, Dispatch_children E m l c ds tr)"
  by (induction E m l c d tr and E m l c ds tr rule: Dispatch_node_Dispatch_nodes.induct)
    simp_all

lemma Flush_node_unchanged:
  "Flush_node d tr = (d, Flush d tr)"
  "Flush_nodes ds tr = (ds, Flush_children ds tr)"
  by (induction d tr and ds tr rule: Flush_node_Flush_nodes.induct) simp_all

termination Close_node
proof (relation "measure (\<lambda>x. case x of
    Inl (E, d, tr) \<Rightarrow> size d | Inr (E, ds, tr) \<Rightarrow> size_list size ds)")
qed (auto simp: Flush_node_unchanged)


lemma Close_node_unchanged:
  "Close_node E d tr = (d, Close E d tr)"
  "Close_nodes E ds tr = (ds, Close_children E ds tr)"
proof (induction E d tr and E ds tr rule: Close_node_Close_nodes.induct)
  case (1 E f ws ds tr)
  then show ?case by (auto split: prod.splits option.splits)
next
  case (2 E tr)
  show ?case by simp
next
  case (3 E disp rest tr)
  have fl: "Flush_node disp tr = (disp, Flush disp tr)" by (rule Flush_node_unchanged)
  obtain r2 tr2 where c: "Close E disp (Flush disp tr) = (r2, tr2)"
    by (cases "Close E disp (Flush disp tr)") auto
  have own: "Close_node E disp (Flush disp tr) = (disp, r2, tr2)"
    using "3.IH"(1) [OF fl [symmetric]] c by simp
  show ?case
  proof (cases r2)
    case None
    have "Close_nodes E rest tr2 = (rest, Close_children E rest tr2)"
      using "3.IH"(2) [OF fl [symmetric] _ _ None, of disp "(None, tr2)" tr2] own None
      by simp
    with fl own c None show ?thesis by (simp split: prod.splits)
  next
    case (Some e)
    with fl own c show ?thesis by simp
  qed
qed

section \<open>Properties of Dispatch\<close>

lemma Dispatch_writers_append:
  "Dispatch_writers E m l c (xs @ ys) tr =
     Dispatch_writers E m l c ys (Dispatch_writers E m l c xs tr)"
  by (induction xs arbitrary: tr) (simp_all add: Let_def)

text \<open>Dispatching into a tree is the writer loop run over the flattened tree.\<close>

lemma Dispatch_flat:
  "Dispatch E m l c d tr = Dispatch_writers E m l c (dispatch_order d) tr"
  "Dispatch_children E m l c ds tr =
     Dispatch_writers E m l c (concat (map dispatch_order ds)) tr"
  by (induction E m l c d tr and E m l c ds tr rule: Dispatch_Dispatch_children.induct)
     (simp_all add: Dispatch_writers_append)

lemma written_append: "written (xs @ ys) = written xs @ written ys"
  by (induction xs rule: written.induct) simp_all

lemma callbacks_append: "callbacks (xs @ ys) = callbacks xs @ callbacks ys"
  by (induction xs rule: callbacks.induct) simp_all

lemma delivered_append: "delivered w (xs @ ys) = delivered w xs @ delivered w ys"
  by (induction w xs rule: delivered.induct) simp_all

lemma Dispatch_writers_events:
  "\<exists>rs. length rs = length ws \<and>
     Dispatch_writers E m l c ws tr = tr @ concat (map2 (delivery m l c) ws rs)"
proof (induction ws arbitrary: tr)
  case Nil
  show ?case by simp
next
  case (Cons w ws)
  define r where "r = Write_returns E tr w m l c"
  define tr2 where "tr2 = tr @ delivery m l c w r"
  have step: "Dispatch_writers E m l c (w # ws) tr = Dispatch_writers E m l c ws tr2"
    by (cases r) (simp_all add: Let_def r_def [symmetric] tr2_def delivery_def)
  from Cons.IH [of tr2] obtain rs where
    rs: "length rs = length ws"
      "Dispatch_writers E m l c ws tr2 = tr2 @ concat (map2 (delivery m l c) ws rs)"
    by blast
  have "length (r # rs) = length (w # ws)" using rs(1) by simp
  moreover have "Dispatch_writers E m l c (w # ws) tr =
      tr @ concat (map2 (delivery m l c) (w # ws) (r # rs))"
    using step rs(2) by (simp add: tr2_def)
  ultimately show ?case by blast
qed

lemma written_Dispatch_writers:
  "written (Dispatch_writers E m l c ws tr) = written tr @ ws"
  by (induction ws arbitrary: tr) (simp_all add: Let_def written_append split: option.splits)

text \<open>One dispatch into two writers, the first or the second of which always fails.\<close>

lemma Dispatch_two_writers:
  assumes order: "dispatch_order disp = [w1, w2] \<or> dispatch_order disp = [w2, w1]"
    and fails: "\<forall>tr m l c. Write_returns E tr w1 m l c \<noteq> None"
    and succeeds: "\<forall>tr m l c. Write_returns E tr w2 m l c = None"
  shows "length (callbacks (Dispatch E m l c disp tr)) = Suc (length (callbacks tr))"
    and "delivered w2 (Dispatch E m l c disp tr) = delivered w2 tr @ [(m, l, c)]"
proof -
  have ne: "w1 \<noteq> w2" using fails succeeds by auto
  obtain e where e: "Write_returns E tr w1 m l c = Some e"
    using fails by (meson not_None_eq)
  have s: "\<And>t. Write_returns E t w2 m l c = None" using succeeds by simp
  obtain e' where e': "Write_returns E (tr @ [EvWrite w2 m l c None]) w1 m l c = Some e'"
    using fails by (meson not_None_eq)
  from order show "length (callbacks (Dispatch E m l c disp tr)) = Suc (length (callbacks tr))"
    by (auto simp: Dispatch_flat Let_def e e' s callbacks_append)
  from order ne show "delivered w2 (Dispatch E m l c disp tr) = delivered w2 tr @ [(m, l, c)]"
    by (auto simp: Dispatch_flat Let_def e e' s delivered_append)
qed

lemma Dispatch_all_two_writers:
  assumes "dispatch_order disp = [w1, w2] \<or> dispatch_order disp = [w2, w1]"
    and "\<forall>tr m l c. Write_returns E tr w1 m l c \<noteq> None"
    and "\<forall>tr m l c. Write_returns E tr w2 m l c = None"
  shows "length (callbacks (Dispatch_all E disp msgs tr)) = length (callbacks tr) + length msgs
    \<and> delivered w2 (Dispatch_all E disp msgs tr) = delivered w2 tr @ msgs"
proof (induction msgs arbitrary: tr)
  case Nil
  show ?case by simp
next
  case (Cons msg msgs)
  obtain m l c where msg: "msg = (m, l, c)" by (cases msg) auto
  show ?case
    unfolding msg Dispatch_all.simps
    using Cons.IH [of "Dispatch E m l c disp tr"] Dispatch_two_writers [OF assms, of m l c tr]
    by simp
qed

text \<open>
  C1. Dispatch calls \<open>Write\<close> on every writer of the tree, the node's own writers first:
  the trace grows by one delivery per writer of \<open>dispatch_order\<close>, in that order. A
  delivery whose \<open>Write\<close> returned an error is followed by the call of the error callback
  with that error, and the deliveries to the remaining writers and to the children's
  writers follow it all the same. In particular, when the tree holds two writers, one
  that always fails and one that always succeeds, then dispatching the messages \<open>msgs\<close>
  calls the error callback \<open>length msgs\<close> times and the succeeding writer takes exactly
  \<open>msgs\<close>, in order.
\<close>

theorem Dispatch_continues_past_failures:
  "(\<exists>rs. length rs = length (dispatch_order disp) \<and>
      Dispatch E m l c disp tr =
        tr @ concat (map2 (delivery m l c) (dispatch_order disp) rs)) \<and>
   ((dispatch_order disp = [w1, w2] \<or> dispatch_order disp = [w2, w1]) \<and>
    (\<forall>tr m l c. Write_returns E tr w1 m l c \<noteq> None) \<and>
    (\<forall>tr m l c. Write_returns E tr w2 m l c = None) \<longrightarrow>
      length (callbacks (Dispatch_all E disp msgs tr)) = length (callbacks tr) + length msgs \<and>
      delivered w2 (Dispatch_all E disp msgs tr) = delivered w2 tr @ msgs)"
proof (intro conjI impI)
  show "\<exists>rs. length rs = length (dispatch_order disp) \<and>
      Dispatch E m l c disp tr = tr @ concat (map2 (delivery m l c) (dispatch_order disp) rs)"
    unfolding Dispatch_flat by (rule Dispatch_writers_events)
next
  assume h: "(dispatch_order disp = [w1, w2] \<or> dispatch_order disp = [w2, w1]) \<and>
    (\<forall>tr m l c. Write_returns E tr w1 m l c \<noteq> None) \<and>
    (\<forall>tr m l c. Write_returns E tr w2 m l c = None)"
  then have "length (callbacks (Dispatch_all E disp msgs tr)) = length (callbacks tr) + length msgs
    \<and> delivered w2 (Dispatch_all E disp msgs tr) = delivered w2 tr @ msgs"
    by (intro Dispatch_all_two_writers) blast+
  then show "length (callbacks (Dispatch_all E disp msgs tr)) = length (callbacks tr) + length msgs"
    and "delivered w2 (Dispatch_all E disp msgs tr) = delivered w2 tr @ msgs"
    by blast+
qed

theorem Dispatch_continues_past_failures_witness:
  "length (callbacks (Dispatch_all example_env failing_tree
      [(''one'', 0, ()), (''two'', 1, ())] [])) = 2 \<and>
   delivered writer_B (Dispatch_all example_env failing_tree
      [(''one'', 0, ()), (''two'', 1, ())] []) = [(''one'', 0, ()), (''two'', 1, ())]"
  using Dispatch_continues_past_failures
    [of failing_tree example_env "''one''" 0 "()" "[]" writer_X writer_B
      "[(''one'', 0, ()), (''two'', 1, ())]"]
  by (simp add: failing_tree_def failing_child_def example_env_def writer_X_def
      writer_B_def sink_X_def sink_B_def Let_def)

text \<open>
  C3. Whatever the writers return, the calls of \<open>Write\<close> that a dispatch makes are those
  of \<open>dispatch_order\<close>, in that order: the node's own writers in registration order, then
  the children's subtrees in registration order, each served in the same way.
\<close>

theorem Dispatch_writers_before_children:
  "written (Dispatch E m l c disp tr) = written tr @ dispatch_order disp \<and>
   written (Dispatch E m l c (dispatcher f ws ds) tr) =
     written tr @ ws @ concat (map dispatch_order ds)"
  by (simp add: Dispatch_flat written_Dispatch_writers)

theorem Dispatch_writers_before_children_witness:
  "written (Dispatch example_env ''hello'' 0 () example_tree []) =
     [writer_A, writer_B, writer_C, writer_D]"
  using Dispatch_writers_before_children [of example_env "''hello''" 0 "()" example_tree "[]"]
  by (simp add: example_tree_def example_child_def)

section \<open>Properties of Flush\<close>

lemma Flush_writers_eq:
  "Flush_writers ws tr = tr @ map EvFlush (filter is_Flusher (map Writer ws))"
  by (induction ws arbitrary: tr) simp_all

lemma Flush_eq:
  "Flush d (tr :: ('l, 'c) event list) = tr @ flush_order d"
  "Flush_children ds (tr :: ('l, 'c) event list) = tr @ concat (map flush_order ds)"
  by (induction d tr and ds tr rule: Flush_Flush_children.induct)
     (simp_all add: Flush_writers_eq)

lemma errors_of_append: "errors_of (xs @ ys) = errors_of xs @ errors_of ys"
  by (induction xs rule: errors_of.induct) simp_all

lemma errors_of_map_EvFlush: "errors_of (map EvFlush ss) = []"
  by (induction ss) simp_all

lemma flush_order_sinks:
  "\<exists>ss. (flush_order d :: ('l, 'c) event list) = map EvFlush ss \<and>
     set ss = {s \<in> Writer ` set (dispatch_order d). is_Flusher s}"
proof (induction d)
  case (dispatcher f ws ds)
  have "\<exists>ss. concat (map flush_order ds) = (map EvFlush ss :: ('l, 'c) event list) \<and>
      set ss = {s \<in> Writer ` set (concat (map dispatch_order ds)). is_Flusher s}"
    using dispatcher.IH
  proof (induction ds)
    case Nil
    show ?case by simp
  next
    case (Cons d ds)
    obtain s1 where s1: "(flush_order d :: ('l, 'c) event list) = map EvFlush s1"
      "set s1 = {s \<in> Writer ` set (dispatch_order d). is_Flusher s}"
      using Cons.prems [of d] by auto
    obtain s2 where s2: "concat (map flush_order ds) = (map EvFlush s2 :: ('l, 'c) event list)"
      "set s2 = {s \<in> Writer ` set (concat (map dispatch_order ds)). is_Flusher s}"
      using Cons.IH Cons.prems by auto
    have "concat (map flush_order (d # ds)) = (map EvFlush (s1 @ s2) :: ('l, 'c) event list)"
      using s1(1) s2(1) by simp
    moreover have "set (s1 @ s2) =
        {s \<in> Writer ` set (concat (map dispatch_order (d # ds))). is_Flusher s}"
      using s1(2) s2(2) by auto
    ultimately show ?case by blast
  qed
  then obtain cs where cs: "concat (map flush_order ds) = (map EvFlush cs :: ('l, 'c) event list)"
    "set cs = {s \<in> Writer ` set (concat (map dispatch_order ds)). is_Flusher s}"
    by blast
  let ?own = "filter is_Flusher (map Writer ws)"
  have "(flush_order (dispatcher f ws ds) :: ('l, 'c) event list) = map EvFlush (cs @ ?own)"
    using cs(1) by simp
  moreover have "set (cs @ ?own) =
      {s \<in> Writer ` set (dispatch_order (dispatcher f ws ds)). is_Flusher s}"
    using cs(2) by auto
  ultimately show ?case by blast
qed

text \<open>
  C6. Flush appends to the trace the flushes of \<open>flush_order\<close>, in that order: first each
  child's subtree, in registration order and flushed in the same way, then the node's own
  writers in registration order, where a writer whose sink has the flush capability
  contributes the call of its \<open>Flush\<close> and any other writer contributes nothing.
\<close>

theorem Flush_children_before_writers:
  "Flush disp tr = tr @ flush_order disp \<and>
   Flush (dispatcher f ws ds) tr =
     tr @ concat (map flush_order ds) @ map EvFlush (filter is_Flusher (map Writer ws))"
  by (simp add: Flush_eq)

theorem Flush_children_before_writers_witness:
  "Flush example_tree ([] :: (nat, unit) event list) = [EvFlush sink_C, EvFlush sink_A]"
  using Flush_children_before_writers [of example_tree "[] :: (nat, unit) event list"]
  by (simp add: example_tree_def example_child_def writer_A_def writer_B_def writer_C_def
      writer_D_def sink_A_def sink_B_def sink_C_def sink_D_def)

text \<open>
  C7. Flush returns nothing but the grown trace, on every tree: it adds calls of \<open>Flush\<close>
  on sinks of the tree that have the flush capability and nothing else, so no error value
  enters the trace and the error callback is not involved. A tree none of whose sinks
  has the capability is flushed without any call at all.
\<close>

theorem Flush_never_fails:
  "(\<exists>ss. Flush disp (tr :: ('l, 'c) event list) = tr @ map EvFlush ss \<and>
      set ss = {s \<in> Writer ` set (dispatch_order disp). is_Flusher s}) \<and>
   errors_of (Flush disp tr) = errors_of tr \<and>
   callbacks (Flush disp tr) = callbacks tr \<and>
   ((\<forall>w \<in> set (dispatch_order disp). \<not> is_Flusher (Writer w)) \<longrightarrow> Flush disp tr = tr)"
proof -
  obtain ss where ss: "(flush_order disp :: ('l, 'c) event list) = map EvFlush ss"
    "set ss = {s \<in> Writer ` set (dispatch_order disp). is_Flusher s}"
    using flush_order_sinks by blast
  have eq: "Flush disp tr = tr @ map EvFlush ss"
    by (simp add: Flush_eq ss(1))
  have cb: "callbacks (map EvFlush ss :: ('l, 'c) event list) = []"
    by (induction ss) simp_all
  have "(\<forall>w \<in> set (dispatch_order disp). \<not> is_Flusher (Writer w)) \<longrightarrow> set ss = {}"
    unfolding ss(2) by blast
  then have "(\<forall>w \<in> set (dispatch_order disp). \<not> is_Flusher (Writer w)) \<longrightarrow> ss = []"
    by simp
  then show ?thesis
    using eq ss(2) cb by (auto simp: errors_of_append errors_of_map_EvFlush callbacks_append)
qed

theorem Flush_never_fails_witness:
  "Flush (dispatcher example_formatter [writer_B, writer_D] [])
     [EvErrorFunc (errorString ''earlier'') :: (nat, unit) event] =
     [EvErrorFunc (errorString ''earlier'')]"
  using Flush_never_fails [of "dispatcher example_formatter [writer_B, writer_D] []"
    "[EvErrorFunc (errorString ''earlier'') :: (nat, unit) event]"]
  by (simp add: writer_B_def writer_D_def sink_B_def sink_D_def)

section \<open>Properties of Close\<close>

lemma outcome_seq:
  "outcome p1 tr None tr1 \<Longrightarrow> outcome p2 tr1 r tr' \<Longrightarrow> outcome (p1 @ p2) tr r tr'"
proof (cases r)
  case None
  assume "outcome p1 tr None tr1" "outcome p2 tr1 r tr'"
  with None show ?thesis by (simp add: outcome_def)
next
  case (Some e)
  assume a: "outcome p1 tr None tr1" "outcome p2 tr1 r tr'"
  from a(1) have tr1: "tr1 = tr @ p1" by (simp add: outcome_def)
  from a(2) Some obtain pre s post where
    p: "p2 = pre @ EvClose s None # post" "tr' = tr1 @ pre @ [EvClose s (Some e)]"
    by (auto simp: outcome_def)
  have "p1 @ p2 = (p1 @ pre) @ EvClose s None # post"
    and "tr' = tr @ (p1 @ pre) @ [EvClose s (Some e)]"
    using p tr1 by simp_all
  then show ?thesis unfolding outcome_def Some option.case by blast
qed

lemma outcome_stop:
  "outcome p1 tr (Some e) tr' \<Longrightarrow> outcome (p1 @ p2) tr (Some e) tr'"
  unfolding outcome_def by auto

lemma outcome_flush: "outcome [EvFlush s] tr None (tr @ [EvFlush s])"
  by (simp add: outcome_def)

lemma outcome_close: "outcome [EvClose s None] tr r (tr @ [EvClose s r])"
  unfolding outcome_def by (cases r) (auto intro: exI [of _ "[]"])

lemma outcome_skip: "outcome [] tr None tr"
  by (simp add: outcome_def)

lemma Close_writers_outcome:
  "outcome (concat (map writer_teardown ws)) tr
     (fst (Close_writers E ws tr)) (snd (Close_writers E ws tr))"
proof (induction ws arbitrary: tr)
  case Nil
  show ?case by (simp add: outcome_skip)
next
  case (Cons w ws)
  let ?s = "Writer w"
  define tr1 where "tr1 = (if is_Flusher ?s then tr @ [EvFlush ?s] else tr)"
  have fl: "outcome (if is_Flusher ?s then [EvFlush ?s] else []) tr None tr1"
    by (simp add: tr1_def outcome_flush outcome_skip)
  have rest: "outcome
      ((if is_Closer ?s then [EvClose ?s None] else []) @ concat (map writer_teardown ws)) tr1
      (fst (Close_writers E (w # ws) tr)) (snd (Close_writers E (w # ws) tr))"
  proof (cases "is_Closer ?s")
    case False
    then have "Close_writers E (w # ws) tr = Close_writers E ws tr1"
      by (simp add: Let_def tr1_def)
    then show ?thesis
      using Cons.IH [of tr1] False by simp
  next
    case True
    show ?thesis
    proof (cases "Close_returns E tr1 ?s")
      case None
      have "Close_writers E (w # ws) tr = Close_writers E ws (tr1 @ [EvClose ?s None])"
        using True None by (simp add: Let_def tr1_def)
      moreover have "outcome ([EvClose ?s None] @ concat (map writer_teardown ws)) tr1
          (fst (Close_writers E ws (tr1 @ [EvClose ?s None])))
          (snd (Close_writers E ws (tr1 @ [EvClose ?s None])))"
        by (rule outcome_seq [OF outcome_close Cons.IH])
      ultimately show ?thesis
        using True by simp
    next
      case (Some e)
      have "Close_writers E (w # ws) tr = (Some e, tr1 @ [EvClose ?s (Some e)])"
        using True Some by (simp add: Let_def tr1_def)
      moreover have "outcome ([EvClose ?s None] @ concat (map writer_teardown ws)) tr1
          (Some e) (tr1 @ [EvClose ?s (Some e)])"
        by (rule outcome_stop [OF outcome_close])
      ultimately show ?thesis
        using True by simp
    qed
  qed
  have "outcome
      ((if is_Flusher ?s then [EvFlush ?s] else []) @
       (if is_Closer ?s then [EvClose ?s None] else []) @ concat (map writer_teardown ws))
      tr (fst (Close_writers E (w # ws) tr)) (snd (Close_writers E (w # ws) tr))"
    by (rule outcome_seq [OF fl rest])
  then show ?case
    by (simp only: list.map concat.simps writer_teardown_def [of w] append_assoc)
qed

lemma Close_outcome:
  "outcome (close_order d) tr (fst (Close E d tr)) (snd (Close E d tr))"
  "outcome (concat (map (\<lambda>d. flush_order d @ close_order d) ds)) tr
     (fst (Close_children E ds tr)) (snd (Close_children E ds tr))"
proof (induction E d tr and E ds tr rule: Close_Close_children.induct)
  case (1 E f ws ds tr)
  let ?children = "concat (map (\<lambda>d. flush_order d @ close_order d) ds)"
  obtain r1 tr1 where c: "Close_children E ds tr = (r1, tr1)"
    by (cases "Close_children E ds tr") auto
  show ?case
  proof (cases r1)
    case None
    have "outcome (?children @ concat (map writer_teardown ws)) tr
        (fst (Close_writers E ws tr1)) (snd (Close_writers E ws tr1))"
      using "1.IH" c None by (intro outcome_seq [OF _ Close_writers_outcome]) simp
    then show ?thesis using c None by simp
  next
    case (Some e)
    have "outcome (?children @ concat (map writer_teardown ws)) tr (Some e) tr1"
      using "1.IH" c Some by (intro outcome_stop) simp
    then show ?thesis using c Some by simp
  qed
next
  case (2 E tr)
  show ?case by (simp add: outcome_skip)
next
  case (3 E disp rest tr)
  let ?tr1 = "Flush disp tr"
  let ?rest = "concat (map (\<lambda>d. flush_order d @ close_order d) rest)"
  obtain r2 tr2 where c: "Close E disp ?tr1 = (r2, tr2)"
    by (cases "Close E disp ?tr1") auto
  have fl: "outcome (flush_order disp) tr None ?tr1"
    by (simp add: outcome_def Flush_eq)
  have own: "outcome (close_order disp) ?tr1 r2 tr2"
    using "3.IH"(1) c by simp
  show ?case
  proof (cases r2)
    case None
    have "outcome ?rest tr2 (fst (Close_children E rest tr2)) (snd (Close_children E rest tr2))"
      using "3.IH"(2) [of r2 tr2] c None by simp
    then have "outcome (flush_order disp @ close_order disp @ ?rest) tr
        (fst (Close_children E rest tr2)) (snd (Close_children E rest tr2))"
      using own None by (intro outcome_seq [OF fl] outcome_seq) simp_all
    then show ?thesis using c None by simp
  next
    case (Some e)
    have "outcome (flush_order disp @ close_order disp @ ?rest) tr (Some e) tr2"
      using own Some by (intro outcome_seq [OF fl] outcome_stop) simp
    then show ?thesis using c Some by simp
  qed
qed

lemma Close_follows_close_order:
  "Close E d tr = (r, tr') \<Longrightarrow> outcome (close_order d) tr r tr'"
  using Close_outcome(1) [of d tr E] by simp

lemma Close_children_append:
  "Close_children E pre tr = (None, tr1) \<Longrightarrow>
     Close_children E (pre @ rest) tr = Close_children E rest tr1"
proof (induction pre arbitrary: tr)
  case Nil
  then show ?case by simp
next
  case (Cons d pre)
  obtain r2 tr2 where c: "Close E d (Flush d tr) = (r2, tr2)"
    by (cases "Close E d (Flush d tr)") auto
  with Cons.prems have r2: "r2 = None" and rest: "Close_children E pre tr2 = (None, tr1)"
    by (cases r2; simp)+
  show ?case using c r2 Cons.IH [OF rest] by simp
qed

lemma Close_writers_append:
  "Close_writers E pre tr = (None, tr1) \<Longrightarrow>
     Close_writers E (pre @ rest) tr = Close_writers E rest tr1"
proof (induction pre arbitrary: tr)
  case Nil
  then show ?case by simp
next
  case (Cons w pre)
  then show ?case
    by (auto simp: Let_def split: if_splits option.splits)
qed

lemma errors_of_flush_order: "errors_of (flush_order d :: ('l, 'c) event list) = []"
proof -
  obtain ss where "(flush_order d :: ('l, 'c) event list) = map EvFlush ss"
    using flush_order_sinks by blast
  then show ?thesis by (simp add: errors_of_map_EvFlush)
qed

lemma errors_of_concat:
  "(\<And>x. x \<in> set xs \<Longrightarrow> errors_of (g x) = []) \<Longrightarrow> errors_of (concat (map g xs)) = []"
  by (induction xs) (simp_all add: errors_of_append)

lemma errors_of_writer_teardown: "errors_of (writer_teardown w) = []"
  by (simp add: writer_teardown_def)

lemma errors_of_close_order: "errors_of (close_order d :: ('l, 'c) event list) = []"
proof (induction d)
  case (dispatcher f ws ds)
  have "errors_of (concat (map (\<lambda>d. flush_order d @ close_order d) ds) :: ('l, 'c) event list) = []"
    by (rule errors_of_concat) (simp add: errors_of_append errors_of_flush_order dispatcher.IH)
  moreover have "errors_of (concat (map writer_teardown ws) :: ('l, 'c) event list) = []"
    by (rule errors_of_concat) (rule errors_of_writer_teardown)
  ultimately show ?case by (simp add: errors_of_append)
qed

lemma flush_precedes_close_append:
  assumes "flush_precedes_close xs" and "flush_precedes_close ys"
  shows "flush_precedes_close (xs @ ys)"
  unfolding flush_precedes_close_def
proof (intro allI impI)
  fix pre s r post
  assume a: "xs @ ys = pre @ EvClose s r # post \<and> is_Flusher s"
  then consider us where "xs = pre @ us" "us @ ys = EvClose s r # post"
    | us where "xs @ us = pre" "ys = us @ EvClose s r # post"
    by (auto simp: append_eq_append_conv2)
  then show "pre \<noteq> [] \<and> last pre = EvFlush s"
  proof cases
    case 1
    show ?thesis
    proof (cases us)
      case Nil
      with 1 have "ys = [] @ EvClose s r # post" by simp
      with assms(2) a have "([] :: ('a, 'b) event list) \<noteq> []"
        unfolding flush_precedes_close_def by blast
      then show ?thesis by simp
    next
      case (Cons u us')
      with 1 have "xs = pre @ EvClose s r # us'" by simp
      with assms(1) a show ?thesis
        unfolding flush_precedes_close_def by blast
    qed
  next
    case 2
    with assms(2) a have "us \<noteq> [] \<and> last us = EvFlush s"
      unfolding flush_precedes_close_def by blast
    with 2 show ?thesis by auto
  qed
qed

lemma flush_precedes_close_concat:
  "(\<And>x. x \<in> set xs \<Longrightarrow> flush_precedes_close (g x)) \<Longrightarrow>
     flush_precedes_close (concat (map g xs))"
proof (induction xs)
  case Nil
  show ?case by (simp add: flush_precedes_close_def)
next
  case (Cons x xs)
  then show ?case by (simp add: flush_precedes_close_append)
qed

lemma flush_precedes_close_flushes: "flush_precedes_close (map EvFlush ss)"
  unfolding flush_precedes_close_def
  by (auto simp: map_eq_append_conv Cons_eq_map_conv)

lemma flush_precedes_close_flush_order:
  "flush_precedes_close (flush_order d :: ('l, 'c) event list)"
proof -
  obtain ss where "(flush_order d :: ('l, 'c) event list) = map EvFlush ss"
    using flush_order_sinks by blast
  then show ?thesis by (simp add: flush_precedes_close_flushes)
qed

lemma flush_precedes_close_writer_teardown: "flush_precedes_close (writer_teardown w)"
  unfolding flush_precedes_close_def writer_teardown_def
  by (auto simp: Cons_eq_append_conv)

lemma flush_precedes_close_close_order:
  "flush_precedes_close (close_order d :: ('l, 'c) event list)"
proof (induction d)
  case (dispatcher f ws ds)
  have "flush_precedes_close
      (concat (map (\<lambda>d. flush_order d @ close_order d) ds) :: ('l, 'c) event list)"
    by (rule flush_precedes_close_concat)
      (simp add: flush_precedes_close_append flush_precedes_close_flush_order dispatcher.IH)
  moreover have "flush_precedes_close (concat (map writer_teardown ws) :: ('l, 'c) event list)"
    by (rule flush_precedes_close_concat) (rule flush_precedes_close_writer_teardown)
  ultimately show ?case by (simp add: flush_precedes_close_append)
qed

lemma flush_precedes_close_stop:
  assumes "flush_precedes_close (pre @ EvClose s None # post)"
  shows "flush_precedes_close (pre @ [EvClose s r])"
  unfolding flush_precedes_close_def
proof (intro allI impI)
  fix p s' r' q
  assume a: "pre @ [EvClose s r] = p @ EvClose s' r' # q \<and> is_Flusher s'"
  then consider us where "pre = p @ us" "us @ [EvClose s r] = EvClose s' r' # q"
    | us where "pre @ us = p" "[EvClose s r] = us @ EvClose s' r' # q"
    by (auto simp: append_eq_append_conv2)
  then show "p \<noteq> [] \<and> last p = EvFlush s'"
  proof cases
    case 1
    show ?thesis
    proof (cases us)
      case Nil
      with 1 have "pre @ EvClose s None # post = p @ EvClose s' None # post" by simp
      with assms a show ?thesis unfolding flush_precedes_close_def by blast
    next
      case (Cons u us')
      with 1 have "pre @ EvClose s None # post = p @ EvClose s' r' # (us' @ EvClose s None # post)"
        by simp
      with assms a show ?thesis unfolding flush_precedes_close_def by blast
    qed
  next
    case 2
    then have "us = []" "s' = s" by (auto simp: Cons_eq_append_conv)
    with 2 have "pre @ EvClose s None # post = p @ EvClose s' None # post" by simp
    with assms a show ?thesis unfolding flush_precedes_close_def by blast
  qed
qed

lemma Close_flush_precedes_close:
  assumes "Close E d tr = (r, tr @ (new :: ('l, 'c) event list))"
  shows "flush_precedes_close new"
proof (cases r)
  case None
  with Close_follows_close_order [OF assms] have "new = close_order d"
    by (simp add: outcome_def)
  then show ?thesis by (simp add: flush_precedes_close_close_order)
next
  case (Some e)
  with Close_follows_close_order [OF assms] obtain pre s post where
    p: "close_order d = pre @ EvClose s None # post" "new = pre @ [EvClose s (Some e)]"
    by (auto simp: outcome_def)
  have "flush_precedes_close (pre @ EvClose s None # post)"
    using flush_precedes_close_close_order [of d, where ?'l = 'l and ?'c = 'c] p(1) by simp
  then show ?thesis unfolding p(2) by (rule flush_precedes_close_stop)
qed

text \<open>
  C2. Close fails fast. When the closes of the children before some child returned no
  error and that child's \<open>Close\<close> (called after its \<open>Flush\<close>) returns an error, the node's
  \<open>Close\<close> returns that error with the trace as the child left it: no later child and no
  writer of the node is flushed or closed. When all children were closed without an error
  and so were the writers before some writer whose sink's \<open>Close\<close> returns an error, the
  node's \<open>Close\<close> returns that error and the failed close is the last call it made. Seen
  on the trace: a \<open>Close\<close> that returns an error ends with the close that returned that
  error, and no call before it in this invocation failed; a \<open>Close\<close> that returns no error
  made no call that failed.
\<close>

theorem Close_fails_fast:
  "(Dispatchers disp = pre @ child # post \<and>
      Close_children E pre (tr :: ('l, 'c) event list) = (None, tr1) \<and>
      Close E child (Flush child tr1) = (Some e, tr2) \<longrightarrow>
        Close E disp tr = (Some e, tr2)) \<and>
   (Close_children E (Dispatchers disp) tr = (None, tr1) \<and>
      Writers disp = wpre @ w # wpost \<and> Close_writers E wpre tr1 = (None, tr2) \<and>
      is_Closer (Writer w) \<and>
      tr3 = (if is_Flusher (Writer w) then tr2 @ [EvFlush (Writer w)] else tr2) \<and>
      Close_returns E tr3 (Writer w) = Some e \<longrightarrow>
        Close E disp tr = (Some e, tr3 @ [EvClose (Writer w) (Some e)])) \<and>
   (Close E disp tr = (Some e, tr') \<longrightarrow>
      (\<exists>new s. tr' = tr @ new @ [EvClose s (Some e)] \<and> errors_of new = [])) \<and>
   (Close E disp tr = (None, tr') \<longrightarrow> (\<exists>new. tr' = tr @ new \<and> errors_of new = []))"
proof (intro conjI impI)
  assume a: "Dispatchers disp = pre @ child # post \<and>
      Close_children E pre tr = (None, tr1) \<and>
      Close E child (Flush child tr1) = (Some e, tr2)"
  obtain f ws where d: "disp = dispatcher f ws (pre @ child # post)"
    using a by (cases disp) (simp add: Dispatchers_def)
  have "Close_children E (pre @ child # post) tr = Close_children E (child # post) tr1"
    using a by (intro Close_children_append) simp
  also have "\<dots> = (Some e, tr2)" using a by simp
  finally show "Close E disp tr = (Some e, tr2)" by (simp add: d)
next
  assume a: "Close_children E (Dispatchers disp) tr = (None, tr1) \<and>
      Writers disp = wpre @ w # wpost \<and> Close_writers E wpre tr1 = (None, tr2) \<and>
      is_Closer (Writer w) \<and>
      tr3 = (if is_Flusher (Writer w) then tr2 @ [EvFlush (Writer w)] else tr2) \<and>
      Close_returns E tr3 (Writer w) = Some e"
  obtain f ds where d: "disp = dispatcher f (wpre @ w # wpost) ds"
    using a by (cases disp) (simp add: Writers_def)
  have c: "Close_children E ds tr = (None, tr1)"
    using a d by (simp add: Dispatchers_def)
  have "Close_writers E (wpre @ w # wpost) tr1 = Close_writers E (w # wpost) tr2"
    using a by (intro Close_writers_append) simp
  also have "\<dots> = (Some e, tr3 @ [EvClose (Writer w) (Some e)])"
    using a by (auto simp: Let_def)
  finally show "Close E disp tr = (Some e, tr3 @ [EvClose (Writer w) (Some e)])"
    using c by (simp add: d)
next
  assume "Close E disp tr = (Some e, tr')"
  from Close_follows_close_order [OF this] obtain p s q where
    p: "close_order disp = p @ EvClose s None # q" "tr' = tr @ p @ [EvClose s (Some e)]"
    by (auto simp: outcome_def)
  have "errors_of (p @ EvClose s None # q) = []"
    using errors_of_close_order [of disp, where ?'l = 'l and ?'c = 'c] p(1) by simp
  then have "errors_of p = []" by (simp add: errors_of_append)
  with p(2) show "\<exists>new s. tr' = tr @ new @ [EvClose s (Some e)] \<and> errors_of new = []"
    by blast
next
  assume "Close E disp tr = (None, tr')"
  from Close_follows_close_order [OF this] have "tr' = tr @ close_order disp"
    by (simp add: outcome_def)
  then show "\<exists>new. tr' = tr @ new \<and> errors_of new = []"
    using errors_of_close_order [of disp, where ?'l = 'l and ?'c = 'c] by blast
qed

theorem Close_fails_fast_witness:
  "Close example_env closing_tree [] =
     (Some (errorString ''already closed''),
      [EvFlush sink_X, EvFlush sink_X, EvClose sink_X (Some (errorString ''already closed''))])"
  using Close_fails_fast [of closing_tree "[]" closing_child "[]" example_env "[]" "[]"
    "errorString ''already closed''"
    "[EvFlush sink_X, EvFlush sink_X, EvClose sink_X (Some (errorString ''already closed''))]"]
  by (simp add: closing_tree_def closing_child_def Dispatchers_def example_env_def
      writer_X_def sink_X_def Let_def)

text \<open>
  C5. A \<open>Close\<close> that returns no error made exactly the calls of \<open>close_order\<close>, in that
  order: for each child in registration order the child's flush followed by the child's
  own close, and then for each of the node's writers in registration order the flush of
  its sink if the sink can be flushed and the close of its sink if the sink can be
  closed. A \<open>Close\<close> that returns an error made the calls of \<open>close_order\<close> up to the
  close that failed. In either case every close of a sink that can be flushed comes right
  after a flush of that sink, so nothing is closed unflushed, whether or not \<open>Flush\<close> was
  called before.
\<close>

theorem Close_children_then_writers:
  "(Close E disp tr = (None, tr') \<longrightarrow> tr' = tr @ close_order disp) \<and>
   (Close E disp tr = (Some e, tr') \<longrightarrow>
      (\<exists>pre s post. close_order disp = pre @ EvClose s None # post \<and>
         tr' = tr @ pre @ [EvClose s (Some e)])) \<and>
   close_order (dispatcher f ws ds) =
     concat (map (\<lambda>d. flush_order d @ close_order d) ds) @ concat (map writer_teardown ws) \<and>
   (Close E disp tr = (r, tr @ new) \<longrightarrow> flush_precedes_close new)"
proof (intro conjI impI)
  assume "Close E disp tr = (None, tr')"
  from Close_follows_close_order [OF this] show "tr' = tr @ close_order disp"
    by (simp add: outcome_def)
next
  assume "Close E disp tr = (Some e, tr')"
  from Close_follows_close_order [OF this]
  show "\<exists>pre s post. close_order disp = pre @ EvClose s None # post \<and>
      tr' = tr @ pre @ [EvClose s (Some e)]"
    by (simp add: outcome_def)
next
  show "close_order (dispatcher f ws ds) =
     concat (map (\<lambda>d. flush_order d @ close_order d) ds) @ concat (map writer_teardown ws)"
    by simp
next
  assume "Close E disp tr = (r, tr @ new)"
  then show "flush_precedes_close new" by (rule Close_flush_precedes_close)
qed

theorem Close_children_then_writers_witness:
  "Close example_env example_tree [] =
     (None, [EvFlush sink_C, EvFlush sink_C, EvFlush sink_A, EvClose sink_A None,
             EvClose sink_B None])"
  using Close_children_then_writers [of example_env example_tree "[]"
    "[EvFlush sink_C, EvFlush sink_C, EvFlush sink_A, EvClose sink_A None,
      EvClose sink_B None]"]
  by (simp add: example_tree_def example_child_def example_env_def writer_teardown_def
      writer_A_def writer_B_def writer_C_def writer_D_def
      sink_A_def sink_B_def sink_C_def sink_D_def sink_X_def Let_def)

section \<open>Flushes before a close\<close>

lemma closes_after_flushes_append:
  assumes "closes_after_flushes k1 s xs" and "closes_after_flushes k2 s ys"
    and "k \<le> k1" and "k \<le> k2 + count_list xs (EvFlush s)"
  shows "closes_after_flushes k s (xs @ ys)"
  unfolding closes_after_flushes_def
proof (intro allI impI)
  fix pre r post
  assume a: "xs @ ys = pre @ EvClose s r # post"
  then consider us where "xs = pre @ us" "us @ ys = EvClose s r # post"
    | us where "xs @ us = pre" "ys = us @ EvClose s r # post"
    by (auto simp: append_eq_append_conv2)
  then show "k \<le> count_list pre (EvFlush s)"
  proof cases
    case 1
    show ?thesis
    proof (cases us)
      case Nil
      with 1 have "ys = [] @ EvClose s r # post" and "pre = xs" by simp_all
      with assms(2) have "k2 \<le> count_list [] (EvFlush s :: ('a, 'b) event)"
        unfolding closes_after_flushes_def by blast
      with assms(4) \<open>pre = xs\<close> show ?thesis by simp
    next
      case (Cons u us')
      with 1 have "xs = pre @ EvClose s r # us'" by simp
      with assms(1) have "k1 \<le> count_list pre (EvFlush s)"
        unfolding closes_after_flushes_def by blast
      with assms(3) show ?thesis by simp
    qed
  next
    case 2
    with assms(2) have "k2 \<le> count_list us (EvFlush s)"
      unfolding closes_after_flushes_def by blast
    moreover have "count_list pre (EvFlush s) =
        count_list xs (EvFlush s) + count_list us (EvFlush s)"
      using 2(1) by (metis count_list_append)
    ultimately show ?thesis using assms(4) by simp
  qed
qed

lemma closes_after_flushes_no_close:
  "(\<And>r. EvClose s r \<notin> set evs) \<Longrightarrow> closes_after_flushes k s evs"
  unfolding closes_after_flushes_def
proof (intro allI impI)
  fix pre r post
  assume no: "\<And>r. EvClose s r \<notin> set evs" and "evs = pre @ EvClose s r # post"
  then have "EvClose s r \<in> set evs" by simp
  with no show "k \<le> count_list pre (EvFlush s)" by blast
qed

lemma closes_after_flushes_once:
  assumes "flush_precedes_close evs" and "is_Flusher s"
  shows "closes_after_flushes 1 s evs"
  unfolding closes_after_flushes_def
proof (intro allI impI)
  fix pre r post
  assume "evs = pre @ EvClose s r # post"
  with assms have "pre \<noteq> [] \<and> last pre = EvFlush s"
    unfolding flush_precedes_close_def by blast
  then have "EvFlush s \<in> set pre" by (metis last_in_set)
  then show "1 \<le> count_list pre (EvFlush s)"
    by (metis count_list_0_iff less_one not_le)
qed

lemma in_set_count_list: "x \<in> set xs \<Longrightarrow> 1 \<le> count_list xs x"
  by (metis count_list_0_iff less_one not_le)

lemma teardown_in_close_order:
  "w \<in> set (dispatch_order d) \<Longrightarrow>
     set (writer_teardown w) \<subseteq> set (close_order d :: ('l, 'c) event list)"
proof (induction d)
  case (dispatcher f ws ds)
  from dispatcher.prems consider "w \<in> set ws"
    | c where "c \<in> set ds" "w \<in> set (dispatch_order c)"
    by auto
  then show ?case
  proof cases
    case 1
    then show ?thesis by auto
  next
    case 2
    with dispatcher.IH [of c] show ?thesis by fastforce
  qed
qed

lemma close_in_close_order:
  "EvClose s r \<in> set (close_order d :: ('l, 'c) event list) \<Longrightarrow>
     s \<in> Writer ` set (dispatch_order d)"
proof (induction d)
  case (dispatcher f ws ds)
  have no: "\<And>c. EvClose s r \<notin> set (flush_order c :: ('l, 'c) event list)"
  proof -
    fix c
    obtain ss where "(flush_order c :: ('l, 'c) event list) = map EvFlush ss"
      using flush_order_sinks by blast
    then show "EvClose s r \<notin> set (flush_order c :: ('l, 'c) event list)" by auto
  qed
  from dispatcher.prems consider
    c where "c \<in> set ds" "EvClose s r \<in> set (close_order c :: ('l, 'c) event list)"
    | w where "w \<in> set ws" "EvClose s r \<in> set (writer_teardown w :: ('l, 'c) event list)"
    using no by auto
  then show ?case
  proof cases
    case 1
    with dispatcher.IH [of c] show ?thesis by auto
  next
    case 2
    then have "s = Writer w" by (auto simp: writer_teardown_def split: if_splits)
    with 2 show ?thesis by auto
  qed
qed

lemma flush_in_flush_order:
  assumes "s \<in> Writer ` set (dispatch_order d)" and "is_Flusher s"
  shows "EvFlush s \<in> set (flush_order d :: ('l, 'c) event list)"
proof -
  obtain ss where ss: "(flush_order d :: ('l, 'c) event list) = map EvFlush ss"
    "set ss = {s \<in> Writer ` set (dispatch_order d). is_Flusher s}"
    using flush_order_sinks by blast
  from assms ss(2) have "s \<in> set ss" by blast
  then show ?thesis by (simp add: ss(1))
qed

lemma child_block_twice:
  assumes "is_Flusher s"
  shows "closes_after_flushes 2 s (flush_order c @ close_order c :: ('l, 'c) event list)"
proof (cases "s \<in> Writer ` set (dispatch_order c)")
  case True
  obtain ss where ss: "(flush_order c :: ('l, 'c) event list) = map EvFlush ss"
    using flush_order_sinks by blast
  have f1: "closes_after_flushes 2 s (flush_order c :: ('l, 'c) event list)"
    by (rule closes_after_flushes_no_close) (auto simp: ss)
  have f2: "closes_after_flushes 1 s (close_order c :: ('l, 'c) event list)"
    using flush_precedes_close_close_order assms by (rule closes_after_flushes_once)
  have f3: "1 \<le> count_list (flush_order c :: ('l, 'c) event list) (EvFlush s)"
    using flush_in_flush_order [OF True assms] by (rule in_set_count_list)
  show ?thesis
    using closes_after_flushes_append [OF f1 f2, of 2] f3 by simp
next
  case False
  obtain ss where ss: "(flush_order c :: ('l, 'c) event list) = map EvFlush ss"
    using flush_order_sinks by blast
  show ?thesis
  proof (rule closes_after_flushes_no_close)
    fix r
    have "EvClose s r \<notin> set (close_order c :: ('l, 'c) event list)"
      using close_in_close_order False by blast
    then show "EvClose s r \<notin> set (flush_order c @ close_order c :: ('l, 'c) event list)"
      by (auto simp: ss)
  qed
qed

lemma child_blocks_twice:
  assumes "is_Flusher s"
  shows "closes_after_flushes 2 s
    (concat (map (\<lambda>d. flush_order d @ close_order d) ds) :: ('l, 'c) event list)"
proof (induction ds)
  case Nil
  show ?case by (simp add: closes_after_flushes_def)
next
  case (Cons d ds)
  have "closes_after_flushes 2 s
      ((flush_order d @ close_order d) @
       concat (map (\<lambda>d. flush_order d @ close_order d) ds) :: ('l, 'c) event list)"
    using closes_after_flushes_append [OF child_block_twice [OF assms] Cons.IH, of 2]
    by simp
  then show ?case by simp
qed

lemma close_order_twice:
  assumes "child \<in> set ds" and "s \<in> Writer ` set (dispatch_order child)" and "is_Flusher s"
  shows "closes_after_flushes 2 s (close_order (dispatcher f ws ds) :: ('l, 'c) event list)"
proof -
  let ?blocks = "concat (map (\<lambda>d. flush_order d @ close_order d) ds) :: ('l, 'c) event list"
  let ?own = "concat (map writer_teardown ws) :: ('l, 'c) event list"
  have "flush_precedes_close ?own"
    by (rule flush_precedes_close_concat) (rule flush_precedes_close_writer_teardown)
  then have own: "closes_after_flushes 1 s ?own"
    using assms(3) by (rule closes_after_flushes_once)
  have "EvFlush s \<in> set (flush_order child :: ('l, 'c) event list)"
    using assms(2,3) by (rule flush_in_flush_order)
  then have "EvFlush s \<in> set ?blocks" using assms(1) by auto
  then have "1 \<le> count_list ?blocks (EvFlush s)" by (rule in_set_count_list)
  then have "closes_after_flushes 2 s (?blocks @ ?own)"
    using closes_after_flushes_append [OF child_blocks_twice [OF assms(3)] own, of 2]
    by simp
  then show ?thesis by simp
qed

lemma close_order_child_segment:
  assumes "child \<in> set ds"
  shows "\<exists>before after. (close_order (dispatcher f ws ds) :: ('l, 'c) event list) =
    before @ flush_order child @ close_order child @ after"
proof -
  from assms obtain ds1 ds2 where "ds = ds1 @ child # ds2"
    by (auto simp: in_set_conv_decomp)
  then have "(close_order (dispatcher f ws ds) :: ('l, 'c) event list) =
      concat (map (\<lambda>d. flush_order d @ close_order d) ds1) @
      flush_order child @ close_order child @
      (concat (map (\<lambda>d. flush_order d @ close_order d) ds2) @ concat (map writer_teardown ws))"
    by simp
  then show ?thesis by blast
qed

text \<open>
  C10. Let a \<open>Close\<close> of a node return no error, and let \<open>s\<close> be a sink with the flush
  capability held by a writer somewhere in the subtree of one of the node's children.
  The calls of this \<open>Close\<close> contain the child's flush followed by the child's own close;
  the child's flush flushes \<open>s\<close>, the child's own close flushes \<open>s\<close> again, and wherever
  the trace of this \<open>Close\<close> closes \<open>s\<close>, at least two flushes of \<open>s\<close> come before it. If
  \<open>s\<close> can be closed, it is closed.
\<close>

theorem Close_flushes_child_sinks_twice:
  "Close E disp (tr :: ('l, 'c) event list) = (None, tr') \<and> child \<in> set (Dispatchers disp) \<and>
     s \<in> Writer ` set (dispatch_order child) \<and> is_Flusher s \<longrightarrow>
   (\<exists>before after. tr' = tr @ before @ flush_order child @ close_order child @ after) \<and>
   EvFlush s \<in> set (flush_order child :: ('l, 'c) event list) \<and>
   EvFlush s \<in> set (close_order child :: ('l, 'c) event list) \<and>
   (\<forall>pre r post. tr' = tr @ pre @ EvClose s r # post \<longrightarrow> 2 \<le> count_list pre (EvFlush s)) \<and>
   (is_Closer s \<longrightarrow> EvClose s None \<in> set (close_order child :: ('l, 'c) event list))"
proof (intro impI)
  assume a: "Close E disp tr = (None, tr') \<and> child \<in> set (Dispatchers disp) \<and>
     s \<in> Writer ` set (dispatch_order child) \<and> is_Flusher s"
  obtain f ws ds where d: "disp = dispatcher f ws ds" by (cases disp)
  have child: "child \<in> set ds" using a d by (simp add: Dispatchers_def)
  from a have s_in: "s \<in> Writer ` set (dispatch_order child)" and fl: "is_Flusher s"
    by simp_all
  have tr': "tr' = tr @ close_order disp"
    using Close_follows_close_order [of E disp tr None tr'] a by (simp add: outcome_def)
  obtain w where w: "w \<in> set (dispatch_order child)" "s = Writer w"
    using s_in by blast
  have td: "set (writer_teardown w) \<subseteq> set (close_order child :: ('l, 'c) event list)"
    using w(1) by (rule teardown_in_close_order)
  have 1: "\<exists>before after. tr' = tr @ before @ flush_order child @ close_order child @ after"
    using close_order_child_segment [OF child, of f ws, where ?'l = 'l and ?'c = 'c]
    by (auto simp: tr' d)
  have 2: "EvFlush s \<in> set (flush_order child :: ('l, 'c) event list)"
    using s_in fl by (rule flush_in_flush_order)
  have 3: "EvFlush s \<in> set (close_order child :: ('l, 'c) event list)"
    using td fl w(2) by (auto simp: writer_teardown_def)
  have "closes_after_flushes 2 s (close_order disp :: ('l, 'c) event list)"
    unfolding d using child s_in fl by (rule close_order_twice)
  then have 4: "\<forall>pre r post. tr' = tr @ pre @ EvClose s r # post \<longrightarrow>
      2 \<le> count_list pre (EvFlush s)"
    by (simp add: tr' closes_after_flushes_def)
  have 5: "is_Closer s \<longrightarrow> EvClose s None \<in> set (close_order child :: ('l, 'c) event list)"
    using td w(2) by (auto simp: writer_teardown_def)
  from 1 2 3 4 5 show
    "(\<exists>before after. tr' = tr @ before @ flush_order child @ close_order child @ after) \<and>
     EvFlush s \<in> set (flush_order child :: ('l, 'c) event list) \<and>
     EvFlush s \<in> set (close_order child :: ('l, 'c) event list) \<and>
     (\<forall>pre r post. tr' = tr @ pre @ EvClose s r # post \<longrightarrow> 2 \<le> count_list pre (EvFlush s)) \<and>
     (is_Closer s \<longrightarrow> EvClose s None \<in> set (close_order child :: ('l, 'c) event list))"
    by blast
qed

theorem Close_flushes_child_sinks_twice_witness:
  "Close example_env nested_tree [] =
     (None, [EvFlush sink_A, EvFlush sink_A, EvClose sink_A None, EvClose sink_B None]) \<and>
   nested_child \<in> set (Dispatchers nested_tree) \<and>
   sink_A \<in> Writer ` set (dispatch_order nested_child) \<and> is_Flusher sink_A \<and>
   2 \<le> count_list [EvFlush sink_A, EvFlush sink_A :: (nat, unit) event] (EvFlush sink_A)"
proof -
  have run: "Close example_env nested_tree [] =
     (None, [EvFlush sink_A, EvFlush sink_A, EvClose sink_A None, EvClose sink_B None])"
    by (simp add: nested_tree_def nested_child_def example_env_def writer_A_def writer_B_def
        sink_A_def sink_B_def sink_X_def Let_def)
  have child: "nested_child \<in> set (Dispatchers nested_tree)"
    by (simp add: nested_tree_def Dispatchers_def)
  have sink: "sink_A \<in> Writer ` set (dispatch_order nested_child)"
    by (simp add: nested_child_def writer_A_def)
  have fl: "is_Flusher sink_A" by (simp add: sink_A_def)
  from Close_flushes_child_sinks_twice [of example_env nested_tree "[]"
      "[EvFlush sink_A, EvFlush sink_A, EvClose sink_A None, EvClose sink_B None]"
      nested_child sink_A] run child sink fl
  have "\<forall>pre r post.
      [EvFlush sink_A, EvFlush sink_A, EvClose sink_A None, EvClose sink_B None] =
        [] @ pre @ EvClose sink_A r # post \<longrightarrow>
      2 \<le> count_list pre (EvFlush sink_A :: (nat, unit) event)"
    by blast
  then have "2 \<le> count_list [EvFlush sink_A, EvFlush sink_A :: (nat, unit) event] (EvFlush sink_A)"
    by (elim allE [of _ "[EvFlush sink_A, EvFlush sink_A]"] allE [of _ None]
        allE [of _ "[EvClose sink_B None]"]) simp
  with run child sink fl show ?thesis by blast
qed

section \<open>Properties of createDispatcher\<close>

lemma map_filter_app:
  "List.map_filter g (xs @ ys) = List.map_filter g xs @ List.map_filter g ys"
  by (simp add: List.map_filter_def)

lemma createDispatcher_loop_formatter:
  "createDispatcher_loop N disp rs =
     (case List.map_filter (rejection N (formatter disp)) rs of
        e # es \<Rightarrow> Inl e
      | [] \<Rightarrow> Inr (dispatcher (formatter disp)
          (writers disp @ List.map_filter (stored_writer N (formatter disp)) rs)
          (dispatchers disp @ List.map_filter stored_child rs)))"
proof (induction N disp rs rule: createDispatcher_loop.induct)
  case (1 N disp)
  show ?case by (simp split: list.split)
next
  case (2 N disp writer rest)
  then show ?case by (simp split: list.split)
next
  case (3 N disp ioWriter di rest)
  show ?case
  proof (cases "N ioWriter (formatter disp)")
    case (Inl err)
    then show ?thesis by (simp split: list.split)
  next
    case (Inr writer)
    with 3 show ?thesis by (simp split: list.split)
  qed
next
  case (4 N disp dispInterface rest)
  then show ?case by (simp split: list.split)
next
  case (5 N disp rest)
  show ?case by (simp split: list.split)
qed

lemma accepted_lengths:
  "List.map_filter (rejection N f) rs = [] \<Longrightarrow>
     length (List.map_filter (stored_writer N f) rs) = length (filter writer_like rs) \<and>
     length (List.map_filter stored_child rs) = length (filter dispatcher_like rs)"
proof (induction rs)
  case Nil
  show ?case by (simp split: list.split)
next
  case (Cons r rs)
  from Cons.prems have r: "rejection N f r = None"
    and rest: "List.map_filter (rejection N f) rs = []"
    by (cases "rejection N f r"; simp)+
  from r have "(case stored_writer N f r of None \<Rightarrow> 0 | Some w \<Rightarrow> Suc 0) =
      (if writer_like r then Suc 0 else (0 :: nat))"
    and "(case stored_child r of None \<Rightarrow> 0 | Some d \<Rightarrow> Suc 0) =
      (if dispatcher_like r then Suc 0 else (0 :: nat))"
    by (induction N f r rule: rejection.induct) (auto split: sum.splits)
  with Cons.IH [OF rest] show ?case
    by (auto split: option.splits if_splits)
qed

text \<open>
  C4. Construction fails with the error for a nil formatter when the formatter is nil
  and, failing that, with the error for missing receivers when the slice of receivers is
  nil or empty. Otherwise the receivers are classified one by one, in order: a
  \<open>FormattedWriter\<close> is stored as it is; any other receiver that is an \<open>io.Writer\<close> is
  wrapped with the formatter and the result stored as a writer, also when it is a
  dispatcher as well, and an error of the wrapping is returned; any other receiver that
  is a dispatcher is stored as a child; any other receiver gives the error for an
  unsupported receiver. The first receiver that causes an error decides the result.
  When none does, the result is a dispatcher with the given formatter whose writers are
  the writers stored for the writer-like receivers and whose children are the
  dispatcher-like receivers, each in the order of the receivers, so that there are as
  many writers as writer-like receivers and as many children as dispatcher-like ones.
\<close>

theorem createDispatcher_classifies:
  "createDispatcher N None receivers = Inl (errorString ''Formatter can not be nil'') \<and>
   createDispatcher N (Some f) None = Inl (errorString ''Receivers can not be nil or empty'') \<and>
   createDispatcher N (Some f) (Some []) =
     Inl (errorString ''Receivers can not be nil or empty'') \<and>
   createDispatcher N (Some f) (Some [Receiver_FormattedWriter w]) =
     Inr (dispatcher f [w] []) \<and>
   (N s f = Inr w \<longrightarrow>
      createDispatcher N (Some f) (Some [Receiver_other (Some s) di]) =
        Inr (dispatcher f [w] [])) \<and>
   (N s f = Inl e \<longrightarrow>
      createDispatcher N (Some f) (Some [Receiver_other (Some s) di]) = Inl e) \<and>
   createDispatcher N (Some f) (Some [Receiver_other None (Some d)]) =
     Inr (dispatcher f [] [d]) \<and>
   (List.map_filter (rejection N f) pre = [] \<longrightarrow>
      createDispatcher N (Some f) (Some (pre @ Receiver_other None None # post)) =
        Inl (errorString ''Method can receive either io.Writer or DispatcherInterface'')) \<and>
   (List.map_filter (rejection N f) rs = e # es \<longrightarrow>
      createDispatcher N (Some f) (Some rs) = Inl e) \<and>
   (rs \<noteq> [] \<and> List.map_filter (rejection N f) rs = [] \<longrightarrow>
      (\<exists>disp. createDispatcher N (Some f) (Some rs) = Inr disp \<and> formatter disp = f \<and>
         Writers disp = List.map_filter (stored_writer N f) rs \<and>
         Dispatchers disp = List.map_filter stored_child rs \<and>
         length (Writers disp) = length (filter writer_like rs) \<and>
         length (Dispatchers disp) = length (filter dispatcher_like rs)))"
proof (intro conjI impI)
  show "createDispatcher N None receivers = Inl (errorString ''Formatter can not be nil'')"
    by (simp add: createDispatcher_def)
  show "createDispatcher N (Some f) None =
      Inl (errorString ''Receivers can not be nil or empty'')"
    by (simp add: createDispatcher_def)
  show "createDispatcher N (Some f) (Some []) =
      Inl (errorString ''Receivers can not be nil or empty'')"
    by (simp add: createDispatcher_def)
  show "createDispatcher N (Some f) (Some [Receiver_FormattedWriter w]) =
      Inr (dispatcher f [w] [])"
    by (simp add: createDispatcher_def)
  show "createDispatcher N (Some f) (Some [Receiver_other None (Some d)]) =
      Inr (dispatcher f [] [d])"
    by (simp add: createDispatcher_def)
next
  assume "N s f = Inr w"
  then show "createDispatcher N (Some f) (Some [Receiver_other (Some s) di]) =
      Inr (dispatcher f [w] [])"
    by (simp add: createDispatcher_def)
next
  assume "N s f = Inl e"
  then show "createDispatcher N (Some f) (Some [Receiver_other (Some s) di]) = Inl e"
    by (simp add: createDispatcher_def)
next
  assume "List.map_filter (rejection N f) pre = []"
  then have "List.map_filter (rejection N f) (pre @ Receiver_other None None # post) =
      errorString ''Method can receive either io.Writer or DispatcherInterface'' #
        List.map_filter (rejection N f) post"
    by (simp add: map_filter_app)
  then show "createDispatcher N (Some f) (Some (pre @ Receiver_other None None # post)) =
      Inl (errorString ''Method can receive either io.Writer or DispatcherInterface'')"
    by (simp add: createDispatcher_def createDispatcher_loop_formatter)
next
  assume a: "List.map_filter (rejection N f) rs = e # es"
  then have "rs \<noteq> []" by auto
  with a show "createDispatcher N (Some f) (Some rs) = Inl e"
    by (simp add: createDispatcher_def createDispatcher_loop_formatter)
next
  assume a: "rs \<noteq> [] \<and> List.map_filter (rejection N f) rs = []"
  let ?disp = "dispatcher f (List.map_filter (stored_writer N f) rs)
    (List.map_filter stored_child rs)"
  have "createDispatcher N (Some f) (Some rs) = Inr ?disp"
    using a by (simp add: createDispatcher_def createDispatcher_loop_formatter)
  moreover have "length (Writers ?disp) = length (filter writer_like rs) \<and>
      length (Dispatchers ?disp) = length (filter dispatcher_like rs)"
    using accepted_lengths [of N f rs] a by (simp add: Writers_def Dispatchers_def)
  ultimately show "\<exists>disp. createDispatcher N (Some f) (Some rs) = Inr disp \<and>
      formatter disp = f \<and>
      Writers disp = List.map_filter (stored_writer N f) rs \<and>
      Dispatchers disp = List.map_filter stored_child rs \<and>
      length (Writers disp) = length (filter writer_like rs) \<and>
      length (Dispatchers disp) = length (filter dispatcher_like rs)"
    by (intro exI [of _ ?disp]) (simp add: Writers_def Dispatchers_def)
qed

theorem createDispatcher_classifies_witness:
  "createDispatcher example_wrap (Some example_formatter)
     (Some [Receiver_other (Some sink_A) (Some example_child),
            Receiver_other None (Some example_child),
            Receiver_FormattedWriter writer_B]) =
     Inr (dispatcher example_formatter [writer_A, writer_B] [example_child]) \<and>
   createDispatcher example_wrap (Some example_formatter)
     (Some [Receiver_FormattedWriter writer_B, Receiver_other None None,
            Receiver_other (Some sink_A) None]) =
     Inl (errorString ''Method can receive either io.Writer or DispatcherInterface'')"
  using createDispatcher_classifies [of example_wrap None example_formatter writer_B
      sink_A "Some example_child"
      "errorString ''Method can receive either io.Writer or DispatcherInterface''"
      example_child "[Receiver_FormattedWriter writer_B]"
      "[Receiver_other (Some sink_A) None]"
      "[Receiver_other (Some sink_A) (Some example_child),
        Receiver_other None (Some example_child), Receiver_FormattedWriter writer_B]" "[]"]
  by (simp add: createDispatcher_def example_wrap_def writer_A_def)

section \<open>Properties of String\<close>

lemma String_writers_eq:
  "String_writers W ws str =
     str @ concat (map (\<lambda>w. ''        ->'' @ W w @ ''\<newline>'') ws)"
  by (induction ws arbitrary: str) simp_all

lemma String_children_eq:
  "String_children W ds str = str @ concat (map (\<lambda>d. ''        ->'' @ String W d) ds)"
  by (induction ds arbitrary: str) simp_all

text \<open>
  C8 as stated asks for renderings nested with increasing indentation. In a tree three
  levels deep the child and the grandchild are both introduced at indentation 8.
\<close>

theorem String_indentation_counterexample:
  "lines_of (String example_W deep_tree) =
     [''Formatter: R'',
      ''    ->Dispatchers:'',
      ''        ->Formatter: C'',
      ''    ->Dispatchers:'',
      ''        ->Formatter: G'',
      ''    ->Dispatchers:none'',
      ''    ->Writers:'',
      ''        ->A'',
      ''    ->Writers:none'',
      ''    ->Writers:none''] \<and>
   node_depths 0 deep_tree = [0, 1, 2] \<and>
   header_indents (String example_W deep_tree) = [0, 8, 8] \<and>
   \<not> indentation_increases example_W deep_tree"
  by (simp add: deep_tree_def example_W_def writer_A_def sink_A_def header_indents_def
      indent_def introduces_dispatcher_def indentation_increases_def Let_def)

text \<open>
  C8, amended. The rendering of a dispatcher is the formatter's description on the first
  line, then the dispatchers section, then the writers section. The dispatchers section
  is the text \<open>none\<close> when there are no children; otherwise it holds, for each child in
  order, a prefix of eight spaces and an arrow followed by the child's own rendering as
  it is, so the lines of a nested rendering are not indented any further and the
  indentation does not grow with the depth. The writers section is the text \<open>none\<close> when
  there are no writers; otherwise it holds one line per writer, in order, made of the
  same prefix and the writer's description.
\<close>

theorem String_sections:
  "String W (dispatcher f ws ds) =
     ''Formatter: '' @ Formatter_String f @ ''\<newline>'' @
     ''    ->Dispatchers:'' @
     (if ds = [] then ''none\<newline>''
      else ''\<newline>'' @ concat (map (\<lambda>d. ''        ->'' @ String W d) ds)) @
     ''    ->Writers:'' @
     (if ws = [] then ''none\<newline>''
      else ''\<newline>'' @ concat (map (\<lambda>w. ''        ->'' @ W w @ ''\<newline>'') ws))"
  by (simp add: Let_def String_writers_eq String_children_eq)

theorem String_sections_witness:
  "lines_of (String example_W example_tree) =
     [''Formatter: %Msg'',
      ''    ->Dispatchers:'',
      ''        ->Formatter: %Msg'',
      ''    ->Dispatchers:none'',
      ''    ->Writers:'',
      ''        ->C'',
      ''        ->D'',
      ''    ->Writers:'',
      ''        ->A'',
      ''        ->B'']"
  unfolding example_tree_def example_child_def
    String_sections [of example_W example_formatter "[writer_A, writer_B]"]
    String_sections [of example_W example_formatter "[writer_C, writer_D]" "[]"]
  by (simp add: example_W_def example_formatter_def writer_A_def writer_B_def writer_C_def
      writer_D_def sink_A_def sink_B_def sink_C_def sink_D_def)

section \<open>Calling Close again\<close>

lemma Close_writers_result_independent:
  assumes "\<forall>t t' s. Close_returns E t s = Close_returns E t' s"
  shows "fst (Close_writers E ws tr) = fst (Close_writers E ws tr')"
proof (induction ws arbitrary: tr tr')
  case Nil
  show ?case by simp
next
  case (Cons w ws)
  let ?s = "Writer w"
  let ?t = "if is_Flusher ?s then tr @ [EvFlush ?s] else tr"
  let ?t' = "if is_Flusher ?s then tr' @ [EvFlush ?s] else tr'"
  have same: "Close_returns E ?t ?s = Close_returns E ?t' ?s"
    using assms by blast
  show ?case
  proof (cases "is_Closer ?s")
    case False
    then show ?thesis using Cons.IH [of ?t ?t'] by (simp add: Let_def)
  next
    case True
    show ?thesis
    proof (cases "Close_returns E ?t' ?s")
      case None
      with same True show ?thesis
        using Cons.IH [of "?t @ [EvClose ?s None]" "?t' @ [EvClose ?s None]"]
        by (simp add: Let_def)
    next
      case (Some e)
      with same True show ?thesis by (simp add: Let_def)
    qed
  qed
qed

lemma Close_result_independent:
  assumes "\<forall>t t' s. Close_returns E t s = Close_returns E t' s"
  shows "\<forall>tr'. fst (Close E d tr) = fst (Close E d tr')"
    and "\<forall>tr'. fst (Close_children E ds tr) = fst (Close_children E ds tr')"
  using assms
proof (induction E d tr and E ds tr rule: Close_Close_children.induct)
  case (1 E f ws ds tr)
  show ?case
  proof
    fix tr'
    obtain r1 t1 where a: "Close_children E ds tr = (r1, t1)"
      by (cases "Close_children E ds tr") auto
    obtain r1' t1' where b: "Close_children E ds tr' = (r1', t1')"
      by (cases "Close_children E ds tr'") auto
    have r: "r1 = r1'" using "1.IH" [OF "1.prems"] a b by (metis fst_conv)
    show "fst (Close E (dispatcher f ws ds) tr) = fst (Close E (dispatcher f ws ds) tr')"
    proof (cases r1)
      case None
      with a b r show ?thesis
        using Close_writers_result_independent [OF "1.prems", of ws t1 t1'] by auto
    next
      case (Some e)
      with a b r show ?thesis by auto
    qed
  qed
next
  case (2 E tr)
  show ?case by simp
next
  case (3 E disp rest tr)
  show ?case
  proof
    fix tr'
    obtain r2 t2 where a: "Close E disp (Flush disp tr) = (r2, t2)"
      by (cases "Close E disp (Flush disp tr)") auto
    obtain r2' t2' where b: "Close E disp (Flush disp tr') = (r2', t2')"
      by (cases "Close E disp (Flush disp tr')") auto
    have r: "r2 = r2'" using "3.IH"(1) [OF "3.prems"] a b by (metis fst_conv)
    show "fst (Close_children E (disp # rest) tr) = fst (Close_children E (disp # rest) tr')"
    proof (cases r2)
      case None
      have "fst (Close_children E rest t2) = fst (Close_children E rest t2')"
        using "3.IH"(2) [of r2 t2, OF _ None "3.prems"] a by simp
      with a b r None show ?thesis by auto
    next
      case (Some e)
      with a b r show ?thesis by auto
    qed
  qed
qed

text \<open>
  C9 as stated lets a second \<open>Close\<close> visit every sink again. With sinks that can be
  closed once, the second \<open>Close\<close> of a node with two such sinks ends at the first one,
  whose close now fails, and does not reach the second.
\<close>

theorem Close_again_counterexample:
  "Close closed_once_env two_files [] =
     (None, [EvFlush sink_A, EvClose sink_A None, EvClose sink_B None]) \<and>
   close_order two_files =
     [EvFlush sink_A, EvClose sink_A None, EvClose sink_B None :: (nat, unit) event] \<and>
   Close closed_once_env two_files
       [EvFlush sink_A, EvClose sink_A None, EvClose sink_B None] =
     (Some (errorString ''already closed''),
      [EvFlush sink_A, EvClose sink_A None, EvClose sink_B None] @
      [EvFlush sink_A, EvClose sink_A (Some (errorString ''already closed''))]) \<and>
   snd (Close closed_once_env two_files
       [EvFlush sink_A, EvClose sink_A None, EvClose sink_B None]) \<noteq>
     [EvFlush sink_A, EvClose sink_A None, EvClose sink_B None] @ close_order two_files"
  by (simp add: two_files_def closed_once_env_def writer_teardown_def writer_A_def
      writer_B_def sink_A_def sink_B_def Let_def)

text \<open>
  C9, amended. Each of \<open>Dispatch\<close>, \<open>Flush\<close> and \<open>Close\<close> leaves the node as it found
  it, with the same formatter, the same writers and the same children, whatever the
  writers and sinks return; the struct has no other field, so nothing records that the
  node was closed. A second \<open>Close\<close>, on the node as a first \<open>Close\<close> that returned no error
  left it, is therefore neither rejected nor skipped: it starts the same traversal again.
  It performs the traversal in full when it returns no error, which it does when what a
  sink's close returns does not depend on the calls made before; when a close returns an
  error, it ends there, as any \<open>Close\<close> does. \<open>Flush\<close> and \<open>Dispatch\<close> on the node as the
  \<open>Close\<close> left it still reach the same children and writers.
\<close>

theorem Close_again:
  "Dispatch_node E m l c disp (tr :: ('l, 'c) event list) = (disp, Dispatch E m l c disp tr) \<and>
   Flush_node disp tr = (disp, Flush disp tr) \<and>
   Close_node E disp tr = (disp, Close E disp tr) \<and>
   formatter (fst (Dispatch_node E m l c disp tr)) = formatter disp \<and>
   Writers (fst (Dispatch_node E m l c disp tr)) = Writers disp \<and>
   Dispatchers (fst (Dispatch_node E m l c disp tr)) = Dispatchers disp \<and>
   formatter (fst (Flush_node disp tr)) = formatter disp \<and>
   Writers (fst (Flush_node disp tr)) = Writers disp \<and>
   Dispatchers (fst (Flush_node disp tr)) = Dispatchers disp \<and>
   formatter (fst (Close_node E disp tr)) = formatter disp \<and>
   Writers (fst (Close_node E disp tr)) = Writers disp \<and>
   Dispatchers (fst (Close_node E disp tr)) = Dispatchers disp \<and>
   (Close_node E disp tr = (disp1, None, tr1) \<longrightarrow>
      disp1 = disp \<and>
      tr1 = tr @ close_order disp \<and>
      (fst (snd (Close_node E disp1 tr1)) = None \<longrightarrow>
         snd (snd (Close_node E disp1 tr1)) = tr1 @ close_order disp) \<and>
      (\<forall>e. fst (snd (Close_node E disp1 tr1)) = Some e \<longrightarrow>
         (\<exists>pre s post. close_order disp = pre @ EvClose s None # post \<and>
            snd (snd (Close_node E disp1 tr1)) = tr1 @ pre @ [EvClose s (Some e)])) \<and>
      ((\<forall>t t' s. Close_returns E t s = Close_returns E t' s) \<longrightarrow>
         Close_node E disp1 tr1 = (disp, None, tr1 @ close_order disp)) \<and>
      Flush_node disp1 tr1 = (disp, tr1 @ flush_order disp) \<and>
      fst (Dispatch_node E m l c disp1 tr1) = disp \<and>
      written (snd (Dispatch_node E m l c disp1 tr1)) = written tr1 @ dispatch_order disp)"
proof -
  have frame: "Dispatch_node E m l c disp tr = (disp, Dispatch E m l c disp tr)"
    "Flush_node disp tr = (disp, Flush disp tr)"
    "Close_node E disp tr = (disp, Close E disp tr)"
    by (rule Dispatch_node_unchanged Flush_node_unchanged Close_node_unchanged)+
  have second: "Close_node E disp tr = (disp1, None, tr1) \<longrightarrow>
      disp1 = disp \<and>
      tr1 = tr @ close_order disp \<and>
      (fst (snd (Close_node E disp1 tr1)) = None \<longrightarrow>
         snd (snd (Close_node E disp1 tr1)) = tr1 @ close_order disp) \<and>
      (\<forall>e. fst (snd (Close_node E disp1 tr1)) = Some e \<longrightarrow>
         (\<exists>pre s post. close_order disp = pre @ EvClose s None # post \<and>
            snd (snd (Close_node E disp1 tr1)) = tr1 @ pre @ [EvClose s (Some e)])) \<and>
      ((\<forall>t t' s. Close_returns E t s = Close_returns E t' s) \<longrightarrow>
         Close_node E disp1 tr1 = (disp, None, tr1 @ close_order disp)) \<and>
      Flush_node disp1 tr1 = (disp, tr1 @ flush_order disp) \<and>
      fst (Dispatch_node E m l c disp1 tr1) = disp \<and>
      written (snd (Dispatch_node E m l c disp1 tr1)) = written tr1 @ dispatch_order disp"
  proof
    assume a: "Close_node E disp tr = (disp1, None, tr1)"
    then have same: "disp1 = disp" and first: "Close E disp tr = (None, tr1)"
      by (auto simp: Close_node_unchanged)
    have again:
      "outcome (close_order disp) tr1 (fst (Close E disp tr1)) (snd (Close E disp tr1))"
      by (rule Close_outcome(1))
    have 1: "tr1 = tr @ close_order disp"
      using Close_follows_close_order [OF first] by (simp add: outcome_def)
    have 2: "fst (Close E disp tr1) = None \<longrightarrow> snd (Close E disp tr1) = tr1 @ close_order disp"
      using again by (auto simp: outcome_def)
    have 3: "\<forall>e. fst (Close E disp tr1) = Some e \<longrightarrow>
        (\<exists>pre s post. close_order disp = pre @ EvClose s None # post \<and>
           snd (Close E disp tr1) = tr1 @ pre @ [EvClose s (Some e)])"
      using again by (auto simp: outcome_def)
    have 4: "(\<forall>t t' s. Close_returns E t s = Close_returns E t' s) \<longrightarrow>
        Close E disp tr1 = (None, tr1 @ close_order disp)"
    proof
      assume "\<forall>t t' s. Close_returns E t s = Close_returns E t' s"
      from Close_result_independent(1) [OF this, of disp tr1]
      have "fst (Close E disp tr1) = fst (Close E disp tr)" by blast
      with first have "fst (Close E disp tr1) = None" by simp
      with 2 show "Close E disp tr1 = (None, tr1 @ close_order disp)"
        by (metis prod.collapse)
    qed
    have 5: "Flush disp tr1 = tr1 @ flush_order disp" by (simp add: Flush_eq)
    have 6: "written (Dispatch E m l c disp tr1) = written tr1 @ dispatch_order disp"
      by (simp add: Dispatch_flat written_Dispatch_writers)
    from same 1 2 3 4 5 6 show
      "disp1 = disp \<and>
       tr1 = tr @ close_order disp \<and>
       (fst (snd (Close_node E disp1 tr1)) = None \<longrightarrow>
          snd (snd (Close_node E disp1 tr1)) = tr1 @ close_order disp) \<and>
       (\<forall>e. fst (snd (Close_node E disp1 tr1)) = Some e \<longrightarrow>
          (\<exists>pre s post. close_order disp = pre @ EvClose s None # post \<and>
             snd (snd (Close_node E disp1 tr1)) = tr1 @ pre @ [EvClose s (Some e)])) \<and>
       ((\<forall>t t' s. Close_returns E t s = Close_returns E t' s) \<longrightarrow>
          Close_node E disp1 tr1 = (disp, None, tr1 @ close_order disp)) \<and>
       Flush_node disp1 tr1 = (disp, tr1 @ flush_order disp) \<and>
       fst (Dispatch_node E m l c disp1 tr1) = disp \<and>
       written (snd (Dispatch_node E m l c disp1 tr1)) = written tr1 @ dispatch_order disp"
      by (simp add: Close_node_unchanged Flush_node_unchanged Dispatch_node_unchanged)
  qed
  from frame second show ?thesis by simp
qed

theorem Close_again_witness:
  "Close_node example_env two_files [] =
     (two_files, None, [EvFlush sink_A, EvClose sink_A None, EvClose sink_B None]) \<and>
   Close_node example_env two_files
       [EvFlush sink_A, EvClose sink_A None, EvClose sink_B None] =
     (two_files, None,
      [EvFlush sink_A, EvClose sink_A None, EvClose sink_B None,
       EvFlush sink_A, EvClose sink_A None, EvClose sink_B None])"
proof -
  have first: "Close_node example_env two_files [] =
      (two_files, None, [EvFlush sink_A, EvClose sink_A None, EvClose sink_B None])"
    by (simp add: two_files_def example_env_def writer_A_def writer_B_def sink_A_def
        sink_B_def sink_X_def Let_def)
  have plan: "close_order two_files =
      [EvFlush sink_A, EvClose sink_A None, EvClose sink_B None :: (nat, unit) event]"
    by (simp add: two_files_def writer_teardown_def writer_A_def writer_B_def sink_A_def
        sink_B_def)
  have indep: "\<forall>t t' s. Close_returns example_env t s = Close_returns example_env t' s"
    by (simp add: example_env_def)
  from Close_again [of example_env _ _ _ two_files "[]" two_files
      "[EvFlush sink_A, EvClose sink_A None, EvClose sink_B None]"] first indep
  have "Close_node example_env two_files
        [EvFlush sink_A, EvClose sink_A None, EvClose sink_B None] =
      (two_files, None,
       [EvFlush sink_A, EvClose sink_A None, EvClose sink_B None] @ close_order two_files)"
    by blast
  with first plan show ?thesis by simp
qed

end
